theory Spec2Isabelle
  imports Complex_Main "HOL-Library.Sublist" "HOL-Library.Char_ord" "HOL-Library.List_Lexorder"
begin

section \<open>Python string primitives used by the chunker\<close>

text \<open>
  Python strings are modelled as \<open>string\<close>; one \<open>char\<close> stands for one code point
  below 256. \<open>whitespace\<close> lists the code points below 256 that \<open>str.strip()\<close>
  removes (the characters for which \<open>str.isspace\<close> holds).
\<close>

definition whitespace :: "char list" where
  "whitespace = [CHR 0x09, CHR 0x0A, CHR 0x0B, CHR 0x0C, CHR 0x0D,
                 CHR 0x1C, CHR 0x1D, CHR 0x1E, CHR 0x1F, CHR 0x20, CHR 0x85, CHR 0xA0]"

definition is_space :: "char \<Rightarrow> bool" where
  "is_space c \<longleftrightarrow> c \<in> set whitespace"

definition strip :: "string \<Rightarrow> string" where
  "strip s = rev (dropWhile is_space (rev (dropWhile is_space s)))"

text \<open>
  \<open>text.split(separator)\<close> for a non-empty separator: non-overlapping occurrences, found
  from the left; the result always has one piece more than there are occurrences.
  Python raises on an empty separator; \<open>_recursive_split\<close> never passes one, and the
  model then returns the text as a single piece.
\<close>

function split_sep :: "string \<Rightarrow> string \<Rightarrow> string list" where
  "split_sep sep [] = [[]]"
| "split_sep sep (c # cs) =
     (if sep \<noteq> [] \<and> prefix sep (c # cs)
      then [] # split_sep sep (drop (length sep) (c # cs))
      else (case split_sep sep cs of [] \<Rightarrow> [[c]] | p # ps \<Rightarrow> (c # p) # ps))"
  by pat_completeness auto
termination
  by (relation "measure (\<lambda>(sep, s). length s)") (auto simp: Suc_le_eq)

text \<open>
  \<open>text[start:end]\<close>: a negative bound counts from the end, and both bounds are clamped
  to the string.
\<close>

definition py_slice :: "'a list \<Rightarrow> int \<Rightarrow> int \<Rightarrow> 'a list" where
  "py_slice s start stop =
     (let n = int (length s);
          a = (if start < 0 then max (start + n) 0 else min start n);
          b = (if stop < 0 then max (stop + n) 0 else min stop n)
      in if a < b then take (nat (b - a)) (drop (nat a) s) else [])"

text \<open>\<open>str(n)\<close> for a non-negative integer, as used by the f-string of \<open>chunk_id\<close>.\<close>

fun str_nat :: "nat \<Rightarrow> string" where
  "str_nat n =
     (if n < 10 then [char_of (48 + n)]
      else str_nat (n div 10) @ [char_of (48 + n mod 10)])"

declare str_nat.simps [simp del]

section \<open>config.py and models.py\<close>

text \<open>
  \<open>ChunkingStrategy\<close> is a \<open>str\<close> enumeration: a member compares equal to its string
  value, so a strategy is modelled as that string.
\<close>

type_synonym ChunkingStrategy = string

definition FIXED :: ChunkingStrategy where "FIXED = ''fixed''"
definition SEMANTIC :: ChunkingStrategy where "SEMANTIC = ''semantic''"
definition RECURSIVE :: ChunkingStrategy where "RECURSIVE = ''recursive''"

record Settings =
  CHUNKING_STRATEGY :: ChunkingStrategy
  CHUNK_SIZE :: int
  CHUNK_OVERLAP :: int

definition default_settings :: Settings where
  "default_settings =
     \<lparr>CHUNKING_STRATEGY = RECURSIVE, CHUNK_SIZE = 1000, CHUNK_OVERLAP = 200\<rparr>"

record ChunkMetadata =
  chunk_id :: string
  doc_id :: string
  page_num :: "int option"
  chunk_index :: nat
  text_field :: string
  char_count :: nat
  token_count :: nat

datatype error =
    ValueError
  | IndexError
  | AssertionError
  | FileNotFoundError
  | OSError
  | UnpicklingError

section \<open>utils/chunking.py\<close>

record TextChunker =
  strategy :: ChunkingStrategy
  chunk_size :: int
  chunk_overlap :: int

text \<open>
  \<open>__init__\<close>: \<open>x or default\<close> takes the default when \<open>x\<close> is \<open>None\<close> and also when
  it is falsy (the integer 0, the empty string).
\<close>

definition TextChunker_init ::
  "Settings \<Rightarrow> ChunkingStrategy option \<Rightarrow> int option \<Rightarrow> int option \<Rightarrow> TextChunker" where
  "TextChunker_init settings strategy_arg chunk_size_arg chunk_overlap_arg =
     \<lparr>strategy = (case strategy_arg of None \<Rightarrow> CHUNKING_STRATEGY settings
                   | Some s \<Rightarrow> if s = [] then CHUNKING_STRATEGY settings else s),
      chunk_size = (case chunk_size_arg of None \<Rightarrow> CHUNK_SIZE settings
                   | Some n \<Rightarrow> if n = 0 then CHUNK_SIZE settings else n),
      chunk_overlap = (case chunk_overlap_arg of None \<Rightarrow> CHUNK_OVERLAP settings
                   | Some n \<Rightarrow> if n = 0 then CHUNK_OVERLAP settings else n)\<rparr>"

definition estimate_tokens :: "string \<Rightarrow> nat" where
  "estimate_tokens s = length s div 4"

definition make_chunk_id :: "string \<Rightarrow> nat \<Rightarrow> string" where
  "make_chunk_id d i = d @ ''_chunk_'' @ str_nat i"

text \<open>\<open>page_nums[i] if page_nums and i < len(page_nums) else None\<close>\<close>

definition page_at :: "int list option \<Rightarrow> nat \<Rightarrow> int option" where
  "page_at page_nums i =
     (case page_nums of None \<Rightarrow> None
      | Some ps \<Rightarrow> if ps \<noteq> [] \<and> i < length ps then Some (ps ! i) else None)"

subsection \<open>Fixed strategy\<close>

text \<open>
  The \<open>while\<close> loop of \<open>_fixed_size_chunking\<close>. Nothing in the source bounds the number
  of iterations, so the loop is a partial function: \<open>None\<close> is a run that never returns.
\<close>

partial_function (option) fixed_loop ::
  "TextChunker \<Rightarrow> string \<Rightarrow> string \<Rightarrow> int list option \<Rightarrow> int \<Rightarrow> nat
     \<Rightarrow> ChunkMetadata list \<Rightarrow> ChunkMetadata list option" where
  "fixed_loop self txt d page_nums start idx chunks =
     (if start < int (length txt) then
        (let stop = start + chunk_size self;
             piece = py_slice txt start stop
         in if strip piece = [] then Some chunks
            else fixed_loop self txt d page_nums (stop - chunk_overlap self) (Suc idx)
                   (chunks @ [\<lparr>chunk_id = make_chunk_id d idx, doc_id = d,
                                page_num = page_at page_nums idx, chunk_index = idx,
                                text_field = piece, char_count = length piece,
                                token_count = estimate_tokens piece\<rparr>]))
      else Some chunks)"

declare fixed_loop.simps [code]

definition fixed_size_chunking ::
  "TextChunker \<Rightarrow> string \<Rightarrow> string \<Rightarrow> int list option \<Rightarrow> ChunkMetadata list option" where
  "fixed_size_chunking self txt d page_nums = fixed_loop self txt d page_nums 0 0 []"

subsection \<open>Recursive strategy\<close>

definition separators :: "string list" where
  "separators = [[CHR 0x0A, CHR 0x0A], [CHR 0x0A], ''. '', ''! '', ''? '', '' '', '''']"

text \<open>
  The \<open>for split in splits\<close> loop of \<open>_recursive_split\<close>, with the chunks collected so
  far and the running buffer as state; \<open>sub\<close> is the call at the next separator.
\<close>

fun split_loop ::
  "int \<Rightarrow> (string \<Rightarrow> string list) \<Rightarrow> string \<Rightarrow> string list \<Rightarrow> string list \<Rightarrow> string
     \<Rightarrow> string list \<times> string" where
  "split_loop csize sub separator [] chunks current_chunk = (chunks, current_chunk)"
| "split_loop csize sub separator (split # splits) chunks current_chunk =
     (let split_with_sep = (if separator \<noteq> [] then split @ separator else split)
      in if int (length current_chunk) + int (length split_with_sep) \<le> csize
         then split_loop csize sub separator splits chunks (current_chunk @ split_with_sep)
         else
           (let chunks1 = (if current_chunk \<noteq> [] then chunks @ [strip current_chunk]
                           else chunks)
            in if int (length split_with_sep) > csize
               then split_loop csize sub separator splits (chunks1 @ sub split_with_sep) []
               else split_loop csize sub separator splits chunks1 split_with_sep))"

function recursive_split :: "int \<Rightarrow> string list \<Rightarrow> nat \<Rightarrow> string \<Rightarrow> string list" where
  "recursive_split csize seps sep_index txt =
     (if sep_index \<ge> length seps then [txt]
      else
        (let separator = seps ! sep_index;
             splits = (if separator \<noteq> [] then split_sep separator txt
                       else map (\<lambda>c. [c]) txt);
             r = split_loop csize (\<lambda>t. recursive_split csize seps (Suc sep_index) t)
                   separator splits [] []
         in if strip (snd r) \<noteq> [] then fst r @ [strip (snd r)] else fst r))"
  by pat_completeness auto
termination
  by (relation "measure (\<lambda>(csize, seps, sep_index, txt). length seps - sep_index)") auto

declare recursive_split.simps [simp del]

fun to_metadata :: "string \<Rightarrow> int list option \<Rightarrow> nat \<Rightarrow> string list \<Rightarrow> ChunkMetadata list" where
  "to_metadata d page_nums i [] = []"
| "to_metadata d page_nums i (chunk # chunks) =
     \<lparr>chunk_id = make_chunk_id d i, doc_id = d, page_num = page_at page_nums i,
      chunk_index = i, text_field = chunk, char_count = length chunk,
      token_count = estimate_tokens chunk\<rparr> # to_metadata d page_nums (Suc i) chunks"

definition recursive_chunking ::
  "TextChunker \<Rightarrow> string \<Rightarrow> string \<Rightarrow> int list option \<Rightarrow> ChunkMetadata list" where
  "recursive_chunking self txt d page_nums =
     to_metadata d page_nums 0 (recursive_split (chunk_size self) separators 0 txt)"

subsection \<open>Semantic strategy\<close>

text \<open>
  \<open>re.split(r'\n\n+', text)\<close>: every maximal run of two or more line feeds is one
  delimiter; a single line feed is ordinary text.
\<close>

function re_split_paragraphs :: "string \<Rightarrow> string list" where
  "re_split_paragraphs [] = [[]]"
| "re_split_paragraphs (c # cs) =
     (if c = CHR 0x0A \<and> cs \<noteq> [] \<and> hd cs = CHR 0x0A
      then [] # re_split_paragraphs (dropWhile (\<lambda>x. x = CHR 0x0A) cs)
      else (case re_split_paragraphs cs of [] \<Rightarrow> [[c]] | p # ps \<Rightarrow> (c # p) # ps))"
  by pat_completeness auto
termination
  by (relation "measure length") (auto simp: length_dropWhile_le less_Suc_eq_le)

fun semantic_loop ::
  "TextChunker \<Rightarrow> string \<Rightarrow> int list option \<Rightarrow> string list \<Rightarrow> ChunkMetadata list \<Rightarrow> string \<Rightarrow> nat
     \<Rightarrow> ChunkMetadata list \<times> string \<times> nat" where
  "semantic_loop self d page_nums [] chunks current_chunk idx = (chunks, current_chunk, idx)"
| "semantic_loop self d page_nums (para0 # paragraphs) chunks current_chunk idx =
     (let para = strip para0
      in if para = [] then semantic_loop self d page_nums paragraphs chunks current_chunk idx
         else if current_chunk \<noteq> []
                 \<and> int (length current_chunk) + int (length para) > chunk_size self
         then semantic_loop self d page_nums paragraphs
                (chunks @ [\<lparr>chunk_id = make_chunk_id d idx, doc_id = d,
                             page_num = page_at page_nums idx, chunk_index = idx,
                             text_field = strip current_chunk,
                             char_count = length current_chunk,
                             token_count = estimate_tokens current_chunk\<rparr>])
                (para @ [CHR 0x0A, CHR 0x0A]) (Suc idx)
         else semantic_loop self d page_nums paragraphs chunks
                (current_chunk @ para @ [CHR 0x0A, CHR 0x0A]) idx)"

definition semantic_chunking ::
  "TextChunker \<Rightarrow> string \<Rightarrow> string \<Rightarrow> int list option \<Rightarrow> ChunkMetadata list" where
  "semantic_chunking self txt d page_nums =
     (case semantic_loop self d page_nums (re_split_paragraphs txt) [] [] 0 of
        (chunks, current_chunk, idx) \<Rightarrow>
          if strip current_chunk \<noteq> []
          then chunks @ [\<lparr>chunk_id = make_chunk_id d idx, doc_id = d,
                           page_num = page_at page_nums idx, chunk_index = idx,
                           text_field = strip current_chunk,
                           char_count = length current_chunk,
                           token_count = estimate_tokens current_chunk\<rparr>]
          else chunks)"

subsection \<open>Dispatch\<close>

text \<open>
  \<open>chunk_text\<close>: \<open>None\<close> is a call that never returns, \<open>Some (Inl e)\<close> a raised
  exception, \<open>Some (Inr chunks)\<close> the returned list.
\<close>

definition chunk_text ::
  "TextChunker \<Rightarrow> string \<Rightarrow> string \<Rightarrow> int list option \<Rightarrow> (error + ChunkMetadata list) option" where
  "chunk_text self txt d page_nums =
     (if strategy self = FIXED then map_option Inr (fixed_size_chunking self txt d page_nums)
      else if strategy self = RECURSIVE then Some (Inr (recursive_chunking self txt d page_nums))
      else if strategy self = SEMANTIC then Some (Inr (semantic_chunking self txt d page_nums))
      else Some (Inl ValueError))"

definition chunk_document ::
  "Settings \<Rightarrow> string \<Rightarrow> string \<Rightarrow> ChunkingStrategy option \<Rightarrow> int option \<Rightarrow> int option
     \<Rightarrow> int list option \<Rightarrow> (error + ChunkMetadata list) option" where
  "chunk_document settings txt d strategy_arg chunk_size_arg chunk_overlap_arg page_nums =
     chunk_text (TextChunker_init settings strategy_arg chunk_size_arg chunk_overlap_arg)
       txt d page_nums"


text \<open>
  The recursion of \<open>_recursive_split\<close> written on the separators that are left,
  \<open>separators[sep_index:]\<close>; it is shown below to agree with \<open>recursive_split\<close>.
\<close>

fun rsplit :: "int \<Rightarrow> string list \<Rightarrow> string \<Rightarrow> string list" where
  "rsplit csize [] txt = [txt]"
| "rsplit csize (separator # rest) txt =
     (let splits = (if separator \<noteq> [] then split_sep separator txt
                    else map (\<lambda>c. [c]) txt);
          r = split_loop csize (\<lambda>t. rsplit csize rest t) separator splits [] []
      in if strip (snd r) \<noteq> [] then fst r @ [strip (snd r)] else fst r)"

text \<open>The text of a string without its whitespace, and of a list of chunks.\<close>

definition non_space :: "string \<Rightarrow> string" where
  "non_space s = filter (\<lambda>c. \<not> is_space c) s"

definition chunk_texts :: "(error + ChunkMetadata list) option \<Rightarrow> string list" where
  "chunk_texts r = (case r of Some (Inr cs) \<Rightarrow> map text_field cs | _ \<Rightarrow> [])"

definition chunk_count :: "(error + ChunkMetadata list) option \<Rightarrow> nat option" where
  "chunk_count r = (case r of Some (Inr cs) \<Rightarrow> Some (length cs) | _ \<Rightarrow> None)"

text \<open>
  The number of chunks that the specification gives for the Fixed strategy:
  \<open>ceil((len(text) - chunk_overlap) / (chunk_size - chunk_overlap))\<close>.
\<close>

definition spec_fixed_chunk_count :: "nat \<Rightarrow> int \<Rightarrow> int \<Rightarrow> int" where
  "spec_fixed_chunk_count len csize overlap =
     \<lceil>(real len - real_of_int overlap) / real_of_int (csize - overlap)\<rceil>"

text \<open>The window of the Fixed strategy that starts at offset \<open>i * (chunk_size - chunk_overlap)\<close>.\<close>

definition fixed_window :: "TextChunker \<Rightarrow> string \<Rightarrow> nat \<Rightarrow> string" where
  "fixed_window self txt i =
     take (nat (chunk_size self)) (drop (i * nat (chunk_size self - chunk_overlap self)) txt)"

section \<open>services/vector\_service.py\<close>

text \<open>
  Embeddings are lists of numbers. What numpy and FAISS compute from them in floating
  point (the distance of two vectors, the score of a distance) is not fixed by the
  repository: it is a parameter of the model, \<open>fa\<close>, with values in any linearly ordered
  type \<open>'f\<close>. Nothing below depends on how these values are rounded. A value that is not
  a number (NaN) has no place in a linear order and is outside the model.
\<close>

type_synonym vector = "real list"

type_synonym metadata = "(string \<times> string) list"

record 'f float_arith =
  l2sqr_f32 :: "vector \<Rightarrow> vector \<Rightarrow> 'f"
  score_f32 :: "'f \<Rightarrow> 'f"
  flt_max :: 'f

text \<open>
  \<open>l2sqr_f32 fa q x\<close> is the distance that the index reports between the query \<open>q\<close> and
  the stored vector \<open>x\<close>; \<open>score_f32 fa dist\<close> is the value of
  \<open>float(1 / (1 + dist))\<close>; \<open>flt_max fa\<close> is the largest finite float, the distance
  that FAISS gives to a result slot it could not fill.
\<close>

text \<open>
  Modelled from the spec: the FAISS library (\<open>faiss.IndexFlatL2\<close>) is not part of the
  repository. The specification describes it as exact brute-force nearest-neighbour search
  under L2, results in ascending distance. The model stores the dimension \<open>dim\<close> and the
  vectors \<open>xb\<close>; \<open>faiss_search\<close> returns exactly \<open>k\<close> pairs of distance and label, the
  nearest first. A vector enters the result only when its distance is below \<open>flt_max\<close>;
  the slots that stay empty carry \<open>flt_max\<close> and the label \<open>-1\<close>. Equal distances are
  kept in insertion order.
\<close>

record IndexFlatL2 =
  dim :: nat
  xb :: "vector list"

definition faiss_search ::
  "('f::linorder) float_arith \<Rightarrow> IndexFlatL2 \<Rightarrow> vector \<Rightarrow> nat \<Rightarrow> ('f \<times> int) list" where
  "faiss_search fa index q k =
     (let found = take k (sort_key fst
                    (filter (\<lambda>p. fst p < flt_max fa)
                       (zip (map (l2sqr_f32 fa q) (xb index))
                            (map int [0..<length (xb index)]))))
      in found @ replicate (k - length found) (flt_max fa, - 1))"

record 'f result_metadata =
  chunk_index_m :: nat
  char_count_m :: nat
  distance :: 'f

record 'f SearchResult =
  doc_id_r :: string
  chunk_id_r :: string
  text_r :: string
  score :: 'f
  page_num_r :: "int option"
  metadata_r :: "'f result_metadata"

text \<open>
  The store: the in-memory cache \<open>_cache\<close> and the files \<open>{doc_id}.pkl\<close> of the
  vector store directory. A file that was opened for writing and not written completely
  is \<open>Corrupt\<close>.
\<close>

type_synonym cache_entry = "IndexFlatL2 \<times> ChunkMetadata list \<times> metadata option"

datatype disk_file =
    Pickled IndexFlatL2 "ChunkMetadata list" "metadata option"
  | Corrupt

record VectorStoreService =
  cache :: "string \<rightharpoonup> cache_entry"
  disk :: "string \<rightharpoonup> disk_file"

definition empty_store :: VectorStoreService where
  "empty_store = \<lparr>cache = Map.empty, disk = Map.empty\<rparr>"

text \<open>
  What the file system does with the write of \<open>_save_to_disk\<close>: it succeeds, or
  \<open>open\<close> fails (the file is untouched), or \<open>pickle.dump\<close> fails after \<open>open\<close> has
  truncated the file.
\<close>

datatype write_outcome = WriteOk | OpenFails | DumpFails

definition save_to_disk ::
  "VectorStoreService \<Rightarrow> string \<Rightarrow> IndexFlatL2 \<Rightarrow> ChunkMetadata list \<Rightarrow> metadata option
     \<Rightarrow> write_outcome \<Rightarrow> VectorStoreService \<times> (error + unit)" where
  "save_to_disk st d index chunks md io =
     (case io of
        WriteOk \<Rightarrow> (st\<lparr>disk := (disk st)(d \<mapsto> Pickled index chunks md)\<rparr>, Inr ())
      | OpenFails \<Rightarrow> (st, Inl OSError)
      | DumpFails \<Rightarrow> (st\<lparr>disk := (disk st)(d \<mapsto> Corrupt)\<rparr>, Inl OSError))"

text \<open>
  \<open>np.array(embeddings)\<close> needs rows of one length; \<open>shape[1]\<close> does not exist for
  the empty list.
\<close>

definition homogeneous :: "vector list \<Rightarrow> bool" where
  "homogeneous embeddings \<longleftrightarrow> list_all (\<lambda>e. length e = length (hd embeddings)) embeddings"

definition store_document ::
  "VectorStoreService \<Rightarrow> string \<Rightarrow> ChunkMetadata list \<Rightarrow> vector list \<Rightarrow> metadata option
     \<Rightarrow> write_outcome \<Rightarrow> VectorStoreService \<times> (error + unit)" where
  "store_document st d chunks embeddings md io =
     (if length chunks \<noteq> length embeddings then (st, Inl ValueError)
      else if \<not> homogeneous embeddings then (st, Inl ValueError)
      else if embeddings = [] then (st, Inl IndexError)
      else
        (let dimension = length (hd embeddings);
             index = \<lparr>dim = dimension, xb = embeddings\<rparr>;
             st1 = st\<lparr>cache := (cache st)(d \<mapsto>
                        (index, chunks, Some (case md of None \<Rightarrow> [] | Some m \<Rightarrow> m)))\<rparr>
         in save_to_disk st1 d index chunks md io))"

definition load_document ::
  "VectorStoreService \<Rightarrow> string \<Rightarrow> VectorStoreService \<times> (error + cache_entry)" where
  "load_document st d =
     (case cache st d of
        Some e \<Rightarrow> (st, Inr e)
      | None \<Rightarrow>
          (case disk st d of
             None \<Rightarrow> (st, Inl FileNotFoundError)
           | Some Corrupt \<Rightarrow> (st, Inl UnpicklingError)
           | Some (Pickled index chunks md) \<Rightarrow>
               (st\<lparr>cache := (cache st)(d \<mapsto> (index, chunks, md))\<rparr>,
                Inr (index, chunks, md))))"

text \<open>\<open>chunks[idx]\<close>: a negative index counts from the end.\<close>

definition py_index :: "'a list \<Rightarrow> int \<Rightarrow> error + 'a" where
  "py_index xs i =
     (if 0 \<le> i \<and> i < int (length xs) then Inr (xs ! nat i)
      else if i < 0 \<and> 0 \<le> int (length xs) + i then Inr (xs ! nat (int (length xs) + i))
      else Inl IndexError)"

fun build_results ::
  "'f float_arith \<Rightarrow> string \<Rightarrow> ChunkMetadata list \<Rightarrow> ('f \<times> int) list \<Rightarrow> 'f SearchResult list
     \<Rightarrow> error + 'f SearchResult list" where
  "build_results fa d chunks [] results = Inr results"
| "build_results fa d chunks ((dst, idx) # rest) results =
     (if idx < int (length chunks) then
        (case py_index chunks idx of
           Inl e \<Rightarrow> Inl e
         | Inr chunk \<Rightarrow>
             build_results fa d chunks rest
               (results @ [\<lparr>doc_id_r = d, chunk_id_r = chunk_id chunk,
                             text_r = text_field chunk, score = score_f32 fa dst,
                             page_num_r = page_num chunk,
                             metadata_r = \<lparr>chunk_index_m = chunk_index chunk,
                                            char_count_m = char_count chunk,
                                            distance = dst\<rparr>\<rparr>]))
      else build_results fa d chunks rest results)"

definition search ::
  "('f::linorder) float_arith \<Rightarrow> VectorStoreService \<Rightarrow> string \<Rightarrow> vector \<Rightarrow> int
     \<Rightarrow> VectorStoreService \<times> (error + 'f SearchResult list)" where
  "search fa st d query_embedding top_k =
     (case load_document st d of
        (st1, Inl e) \<Rightarrow> (st1, Inl e)
      | (st1, Inr (index, chunks, md)) \<Rightarrow>
          (let k = min top_k (int (length chunks))
           in if length query_embedding \<noteq> dim index \<or> k \<le> 0 then (st1, Inl AssertionError)
              else (st1, build_results fa d chunks
                           (faiss_search fa index query_embedding (nat k)) [])))"

text \<open>
  \<open>list.sort(key=..., reverse=True)\<close>: the list is reversed, sorted stably in
  ascending order and reversed again, so equal keys keep their order.
\<close>

definition py_sort_desc :: "('a \<Rightarrow> 'k::linorder) \<Rightarrow> 'a list \<Rightarrow> 'a list" where
  "py_sort_desc key xs = rev (sort_key key (rev xs))"

fun search_all ::
  "('f::linorder) float_arith \<Rightarrow> VectorStoreService \<Rightarrow> string list \<Rightarrow> vector \<Rightarrow> int
     \<Rightarrow> 'f SearchResult list \<Rightarrow> VectorStoreService \<times> 'f SearchResult list" where
  "search_all fa st [] q k all_results = (st, all_results)"
| "search_all fa st (d # ds) q k all_results =
     (case search fa st d q k of
        (st1, Inr results) \<Rightarrow> search_all fa st1 ds q k (all_results @ results)
      | (st1, Inl e) \<Rightarrow> search_all fa st1 ds q k all_results)"

definition search_multi_documents ::
  "('f::linorder) float_arith \<Rightarrow> VectorStoreService \<Rightarrow> string list \<Rightarrow> vector \<Rightarrow> int \<Rightarrow> int
     \<Rightarrow> VectorStoreService \<times> 'f SearchResult list" where
  "search_multi_documents fa st doc_ids q top_k_per_doc max_total_results =
     (case search_all fa st doc_ids q top_k_per_doc [] of
        (st1, all_results) \<Rightarrow> (st1, py_slice (py_sort_desc score all_results) 0 max_total_results))"

section \<open>Invariants of the chunking loops\<close>

text \<open>
  The buffer \<open>current_chunk\<close> of the Semantic strategy is empty, or trimmed paragraphs
  joined and closed by two line feeds.
\<close>

definition buffer_ok :: "string \<Rightarrow> bool" where
  "buffer_ok cur \<longleftrightarrow>
     cur = [] \<or> (\<exists>b. b \<noteq> [] \<and> \<not> is_space (hd b) \<and> \<not> is_space (last b)
                      \<and> cur = b @ [CHR 0x0A, CHR 0x0A])"

text \<open>What holds of every chunk that the Semantic strategy emits.\<close>

definition semantic_chunk_ok :: "ChunkMetadata \<Rightarrow> bool" where
  "semantic_chunk_ok c \<longleftrightarrow>
     char_count c = length (text_field c) + 2
     \<and> token_count c = (length (text_field c) + 2) div 4
     \<and> strip (text_field c) \<noteq> []"

text \<open>What holds of every chunk that the Fixed strategy emits.\<close>

definition fixed_chunk_ok :: "ChunkMetadata \<Rightarrow> bool" where
  "fixed_chunk_ok c \<longleftrightarrow> char_count c = length (text_field c) \<and> strip (text_field c) \<noteq> []"

section \<open>Notions used to state the properties of the vector store\<close>

text \<open>
  What one document adds to the pool of \<open>search_multi_documents\<close>: the results of its
  search, and nothing when the search raises.
\<close>

definition doc_results ::
  "('f::linorder) float_arith \<Rightarrow> VectorStoreService \<Rightarrow> vector \<Rightarrow> int \<Rightarrow> string
     \<Rightarrow> 'f SearchResult list" where
  "doc_results fa st q k d = (case snd (search fa st d q k) of Inr rs \<Rightarrow> rs | Inl e \<Rightarrow> [])"

definition search_ok ::
  "('f::linorder) float_arith \<Rightarrow> VectorStoreService \<Rightarrow> vector \<Rightarrow> int \<Rightarrow> string \<Rightarrow> bool" where
  "search_ok fa st q k d = (case snd (search fa st d q k) of Inr rs \<Rightarrow> True | Inl e \<Rightarrow> False)"

text \<open>
  The order that the specification gives for equal scores: by the rank of a result in the
  search of its own document, then by \<open>doc_id\<close> ascending.
\<close>

definition rank_in ::
  "('f::linorder) float_arith \<Rightarrow> VectorStoreService \<Rightarrow> vector \<Rightarrow> int \<Rightarrow> 'f SearchResult \<Rightarrow> nat" where
  "rank_in fa st q k r =
     length (takeWhile (\<lambda>x. chunk_id_r x \<noteq> chunk_id_r r)
               (doc_results fa st q k (doc_id_r r)))"

definition spec_before ::
  "('f::linorder) float_arith \<Rightarrow> VectorStoreService \<Rightarrow> vector \<Rightarrow> int
     \<Rightarrow> 'f SearchResult \<Rightarrow> 'f SearchResult \<Rightarrow> bool" where
  "spec_before fa st q k x y \<longleftrightarrow>
     score y < score x
     \<or> (score x = score y
         \<and> (rank_in fa st q k x < rank_in fa st q k y
             \<or> (rank_in fa st q k x = rank_in fa st q k y \<and> doc_id_r x \<le> doc_id_r y)))"

definition spec_tie_order ::
  "('f::linorder) float_arith \<Rightarrow> VectorStoreService \<Rightarrow> vector \<Rightarrow> int
     \<Rightarrow> 'f SearchResult list \<Rightarrow> bool" where
  "spec_tie_order fa st q k rs = sorted_wrt (spec_before fa st q k) rs"

text \<open>
  An arithmetic for the examples: the squared distance and the score without rounding.
  The examples below only use vectors whose distances (0, 1 and 3) and scores (1, 1/2
  and 1/4) are floating-point numbers, so that no rounding takes place on them.
\<close>

definition l2sqr :: "vector \<Rightarrow> vector \<Rightarrow> real" where
  "l2sqr x y = sum_list (map (\<lambda>(a, b). (a - b) * (a - b)) (zip x y))"

definition exact_arith :: "real float_arith" where
  "exact_arith =
     \<lparr>l2sqr_f32 = l2sqr, score_f32 = (\<lambda>dst. 1 / (1 + dst)),
      flt_max = 340282346638528859811704183484516925440\<rparr>"

text \<open>
  A store with two documents: \<open>A\<close> has two chunks and \<open>B\<close> has one, and every
  embedding is the vector \<open>[0]\<close>.
\<close>

definition store_A :: VectorStoreService where
  "store_A =
     fst (store_document empty_store ''A'' (to_metadata ''A'' None 0 [''a0'', ''a1''])
            [[0], [0]] None WriteOk)"

definition store_AB :: VectorStoreService where
  "store_AB =
     fst (store_document store_A ''B'' (to_metadata ''B'' None 0 [''b0'']) [[0]] None WriteOk)"

text \<open>
  A store whose document \<open>A\<close> has three chunks at the distances 3, 0 and 1 from the
  origin.
\<close>

definition store_A3 :: VectorStoreService where
  "store_A3 =
     fst (store_document empty_store ''A'' (to_metadata ''A'' None 0 [''a0'', ''a1'', ''a2''])
            [[1, 1, 1], [0, 0, 0], [1, 0, 0]] None WriteOk)"

section \<open>Properties of the chunker\<close>

subsection \<open>The recursive splitter by separator level\<close>

lemma length_strip_le: "length (strip s) \<le> length s"
proof -
  have "length (strip s) \<le> length (rev (dropWhile is_space s))"
    unfolding strip_def by (metis length_dropWhile_le length_rev)
  also have "\<dots> = length (dropWhile is_space s)" by simp
  also have "\<dots> \<le> length s" by (rule length_dropWhile_le)
  finally show ?thesis .
qed

lemma recursive_split_rsplit:
  "recursive_split csize seps i t = rsplit csize (drop i seps) t"
proof (induction csize seps i t rule: recursive_split.induct)
  case (1 csize seps i t)
  show ?case
  proof (cases "length seps \<le> i")
    case True
    then show ?thesis by (simp add: recursive_split.simps)
  next
    case False
    then have d: "drop i seps = seps ! i # drop (Suc i) seps"
      by (simp add: Cons_nth_drop_Suc)
    have ih: "recursive_split csize seps (Suc i) = rsplit csize (drop (Suc i) seps)"
      using 1 False by (intro ext) simp
    show ?thesis
      using False by (subst recursive_split.simps) (simp add: d ih Let_def)
  qed
qed

lemma split_loop_bound:
  assumes "0 \<le> n" and "\<forall>c\<in>set chunks. int (length c) \<le> n" and "int (length cur) \<le> n"
      and "\<forall>s\<in>set splits. n < int (length (if sep \<noteq> [] then s @ sep else s)) \<longrightarrow>
             (\<forall>c\<in>set (sub (if sep \<noteq> [] then s @ sep else s)). int (length c) \<le> n)"
  shows "(\<forall>c\<in>set (fst (split_loop n sub sep splits chunks cur)). int (length c) \<le> n)
         \<and> int (length (snd (split_loop n sub sep splits chunks cur))) \<le> n"
  using assms
proof (induction splits arbitrary: chunks cur)
  case Nil
  then show ?case by simp
next
  case (Cons s splits)
  let ?sws = "if sep \<noteq> [] then s @ sep else s"
  have rest: "\<forall>s\<in>set splits. n < int (length (if sep \<noteq> [] then s @ sep else s)) \<longrightarrow>
             (\<forall>c\<in>set (sub (if sep \<noteq> [] then s @ sep else s)). int (length c) \<le> n)"
    using Cons.prems(4) by simp
  have sc: "int (length (strip cur)) \<le> n"
    using Cons.prems(3) length_strip_le [of cur] by linarith
  show ?case
  proof (cases "int (length cur) + int (length ?sws) \<le> n")
    case True
    have "int (length (cur @ ?sws)) \<le> n" using True by simp
    from Cons.IH [OF Cons.prems(1) Cons.prems(2) this rest] True show ?thesis by (simp add: Let_def)
  next
    case False
    let ?chunks1 = "if cur \<noteq> [] then chunks @ [strip cur] else chunks"
    have c1: "\<forall>c\<in>set ?chunks1. int (length c) \<le> n"
      using Cons.prems(2) sc by auto
    show ?thesis
    proof (cases "n < int (length ?sws)")
      case True
      have "\<forall>c\<in>set (sub ?sws). int (length c) \<le> n"
        using Cons.prems(4) True by simp
      with c1 have c2: "\<forall>c\<in>set (?chunks1 @ sub ?sws). int (length c) \<le> n" by auto
      have e: "int (length ([]::string)) \<le> n" using Cons.prems(1) by simp
      from Cons.IH [OF Cons.prems(1) c2 e rest] False True show ?thesis by (simp add: Let_def)
    next
      case F2: False
      then have e: "int (length ?sws) \<le> n" by simp
      from Cons.IH [OF Cons.prems(1) c1 e rest] False F2 show ?thesis by (simp add: Let_def)
    qed
  qed
qed

lemma rsplit_bound:
  "1 \<le> n \<Longrightarrow> [] \<in> set seps \<Longrightarrow> \<forall>c\<in>set (rsplit n seps t). int (length c) \<le> n"
proof (induction seps arbitrary: t)
  case Nil
  then show ?case by simp
next
  case (Cons sep rest)
  let ?splits = "if sep \<noteq> [] then split_sep sep t else map (\<lambda>c. [c]) t"
  let ?r = "split_loop n (\<lambda>t. rsplit n rest t) sep ?splits [] []"
  have sub: "\<forall>s\<in>set ?splits. n < int (length (if sep \<noteq> [] then s @ sep else s)) \<longrightarrow>
     (\<forall>c\<in>set (rsplit n rest (if sep \<noteq> [] then s @ sep else s)). int (length c) \<le> n)"
  proof (cases "sep = []")
    case True
    then show ?thesis using Cons.prems(1) by auto
  next
    case False
    then have "[] \<in> set rest" using Cons.prems(2) by auto
    then show ?thesis using Cons.IH Cons.prems(1) by blast
  qed
  have b: "(\<forall>c\<in>set (fst ?r). int (length c) \<le> n) \<and> int (length (snd ?r)) \<le> n"
    using Cons.prems(1) by (intro split_loop_bound sub) auto
  then have "int (length (strip (snd ?r))) \<le> n"
    using length_strip_le [of "snd ?r"] by linarith
  with b show ?case by (auto simp: Let_def)
qed

lemma text_field_to_metadata: "map text_field (to_metadata d pn i cs) = cs"
  by (induction cs arbitrary: i) auto

subsection \<open>Whitespace, and the buffer of the Semantic strategy\<close>

lemma filter_dropWhile_neg: "filter (\<lambda>c. \<not> P c) (dropWhile P s) = filter (\<lambda>c. \<not> P c) s"
  by (induction s) auto

lemma non_space_strip: "non_space (strip s) = non_space s"
proof -
  have "non_space (strip s) = rev (filter (\<lambda>c. \<not> is_space c) (dropWhile is_space (rev (dropWhile is_space s))))"
    by (simp add: non_space_def strip_def rev_filter)
  also have "\<dots> = rev (filter (\<lambda>c. \<not> is_space c) (rev (dropWhile is_space s)))"
    by (simp only: filter_dropWhile_neg)
  also have "\<dots> = filter (\<lambda>c. \<not> is_space c) (dropWhile is_space s)"
    by (simp add: rev_filter)
  also have "\<dots> = non_space s"
    by (simp only: filter_dropWhile_neg non_space_def)
  finally show ?thesis .
qed

lemma strip_empty_iff: "strip s = [] \<longleftrightarrow> non_space s = []"
proof
  assume "strip s = []"
  then have "non_space (strip s) = []" by (simp add: non_space_def)
  then show "non_space s = []" by (simp only: non_space_strip)
next
  assume "non_space s = []"
  then have "\<forall>c\<in>set s. is_space c"
    by (simp add: non_space_def filter_empty_conv)
  then have "dropWhile is_space s = []" by (metis dropWhile_eq_Nil_conv)
  then show "strip s = []" by (simp add: strip_def del: dropWhile_eq_Nil_conv)
qed

lemma strip_fixed:
  assumes "b \<noteq> []" and "\<not> is_space (hd b)" and "\<not> is_space (last b)"
  shows "strip b = b"
proof -
  have 1: "dropWhile is_space b = b"
    using assms(2) by (simp add: dropWhile_eq_self_iff)
  have "hd (rev b) = last b" using assms(1) by (simp add: hd_rev)
  then have 2: "dropWhile is_space (rev b) = rev b"
    using assms(3) by (simp add: dropWhile_eq_self_iff)
  show ?thesis by (simp add: strip_def 1 2)
qed

lemma strip_ends:
  assumes "strip s \<noteq> []"
  shows "\<not> is_space (hd (strip s)) \<and> \<not> is_space (last (strip s))"
proof -
  let ?a = "dropWhile is_space s"
  let ?b = "dropWhile is_space (rev ?a)"
  have b: "?b \<noteq> []" using assms by (simp add: strip_def)
  then have a: "?a \<noteq> []" by (metis dropWhile.simps(1) rev.simps(1))
  have hb: "\<not> is_space (hd ?b)" using b by (rule hd_dropWhile)
  have ha: "\<not> is_space (hd ?a)" using a by (rule hd_dropWhile)
  have "hd ?b \<in> set (rev ?a)"
    using b by (meson hd_in_set set_dropWhileD)
  have "last ?b = last (rev ?a)"
  proof (rule dropWhile_last)
    show "hd ?b \<in> set (rev ?a)" by fact
    show "\<not> is_space (hd ?b)" by fact
  qed
  also have "\<dots> = hd ?a" using a by (simp add: last_rev)
  finally have lb: "\<not> is_space (last ?b)" using ha by simp
  have "hd (strip s) = last ?b" "last (strip s) = hd ?b"
    using b by (simp_all add: strip_def hd_rev last_rev)
  with hb lb show ?thesis by simp
qed

lemma is_space_NL: "is_space (CHR 0x0A)"
  by (simp add: is_space_def whitespace_def)

lemma strip_paragraph_buffer:
  assumes "b \<noteq> []" and "\<not> is_space (hd b)" and "\<not> is_space (last b)"
  shows "strip (b @ [CHR 0x0A, CHR 0x0A]) = b"
proof -
  have 1: "dropWhile is_space (b @ [CHR 0x0A, CHR 0x0A]) = b @ [CHR 0x0A, CHR 0x0A]"
    using assms(1,2) by (simp add: dropWhile_eq_self_iff)
  have "hd (rev b) = last b" using assms(1) by (simp add: hd_rev)
  then have 2: "dropWhile is_space (rev b) = rev b"
    using assms(3) by (simp add: dropWhile_eq_self_iff)
  show ?thesis by (simp add: strip_def 1 2 is_space_NL)
qed

lemma buffer_ok_append:
  assumes "buffer_ok cur" and "strip p \<noteq> []"
  shows "buffer_ok (cur @ strip p @ [CHR 0x0A, CHR 0x0A])"
proof -
  from strip_ends [OF assms(2)]
  have e: "\<not> is_space (hd (strip p))" "\<not> is_space (last (strip p))" by simp_all
  show ?thesis
  proof (cases "cur = []")
    case True
    then show ?thesis using e assms(2) unfolding buffer_ok_def by auto
  next
    case False
    then obtain b where b: "b \<noteq> []" "\<not> is_space (hd b)" "cur = b @ [CHR 0x0A, CHR 0x0A]"
      using assms(1) unfolding buffer_ok_def by auto
    let ?b' = "cur @ strip p"
    have "?b' \<noteq> []" "\<not> is_space (hd ?b')" "\<not> is_space (last ?b')"
      using b e assms(2) by simp_all
    then show ?thesis unfolding buffer_ok_def
      by (intro disjI2 exI [of _ ?b']) simp
  qed
qed

lemma buffer_chunk_ok:
  assumes "buffer_ok cur" and "cur \<noteq> []"
  shows "semantic_chunk_ok \<lparr>chunk_id = i, doc_id = d, page_num = p, chunk_index = n,
           text_field = strip cur, char_count = length cur,
           token_count = estimate_tokens cur\<rparr>"
proof -
  from assms obtain b where b: "b \<noteq> []" "\<not> is_space (hd b)" "\<not> is_space (last b)"
      "cur = b @ [CHR 0x0A, CHR 0x0A]"
    unfolding buffer_ok_def by auto
  have s: "strip cur = b" using b by (simp add: strip_paragraph_buffer)
  have "strip b = b" using b by (simp add: strip_fixed)
  then show ?thesis using b(1,4) s
    by (simp add: semantic_chunk_ok_def estimate_tokens_def)
qed

lemma semantic_loop_ok:
  assumes "buffer_ok cur" and "\<forall>c\<in>set chunks. semantic_chunk_ok c"
  shows "(\<forall>c\<in>set (fst (semantic_loop self d pn ps chunks cur idx)). semantic_chunk_ok c)
         \<and> buffer_ok (fst (snd (semantic_loop self d pn ps chunks cur idx)))"
  using assms
proof (induction ps arbitrary: chunks cur idx)
  case Nil
  then show ?case by simp
next
  case (Cons p ps)
  show ?case
  proof (cases "strip p = []")
    case True
    then show ?thesis using Cons.IH [OF Cons.prems] by simp
  next
    case False
    show ?thesis
    proof (cases "cur \<noteq> [] \<and> int (length cur) + int (length (strip p)) > chunk_size self")
      case True
      let ?c = "\<lparr>chunk_id = make_chunk_id d idx, doc_id = d, page_num = page_at pn idx,
                  chunk_index = idx, text_field = strip cur, char_count = length cur,
                  token_count = estimate_tokens cur\<rparr>"
      have "semantic_chunk_ok ?c" using Cons.prems(1) True by (intro buffer_chunk_ok) simp_all
      then have cs: "\<forall>c\<in>set (chunks @ [?c]). semantic_chunk_ok c"
        using Cons.prems(2) by simp
      have "buffer_ok ([] @ strip p @ [CHR 0x0A, CHR 0x0A])"
        using False by (intro buffer_ok_append) (simp_all add: buffer_ok_def)
      then have bo: "buffer_ok (strip p @ [CHR 0x0A, CHR 0x0A])" by simp
      from Cons.IH [OF bo cs] False True show ?thesis by (simp add: Let_def)
    next
      case F: False
      have bo: "buffer_ok (cur @ strip p @ [CHR 0x0A, CHR 0x0A])"
        using Cons.prems(1) False by (rule buffer_ok_append)
      from Cons.IH [OF bo Cons.prems(2)] False F show ?thesis by (auto simp add: Let_def)
    qed
  qed
qed

lemma semantic_chunking_ok: "\<forall>c\<in>set (semantic_chunking self t d pn). semantic_chunk_ok c"
proof -
  obtain chunks cur idx where r: "semantic_loop self d pn (re_split_paragraphs t) [] [] 0 = (chunks, cur, idx)"
    by (metis prod_cases3)
  have "(\<forall>c\<in>set (fst (semantic_loop self d pn (re_split_paragraphs t) [] [] 0)). semantic_chunk_ok c)
         \<and> buffer_ok (fst (snd (semantic_loop self d pn (re_split_paragraphs t) [] [] 0)))"
    by (rule semantic_loop_ok) (simp_all add: buffer_ok_def)
  then have ok: "\<forall>c\<in>set chunks. semantic_chunk_ok c" "buffer_ok cur" by (simp_all add: r)
  show ?thesis
  proof (cases "strip cur \<noteq> []")
    case True
    then have "cur \<noteq> []" by (auto simp: strip_def)
    with ok(2) have "semantic_chunk_ok \<lparr>chunk_id = make_chunk_id d idx, doc_id = d, page_num = page_at pn idx,
                  chunk_index = idx, text_field = strip cur, char_count = length cur,
                  token_count = estimate_tokens cur\<rparr>" by (rule buffer_chunk_ok)
    with ok(1) True show ?thesis by (simp add: semantic_chunking_def r)
  next
    case False
    with ok(1) show ?thesis by (simp add: semantic_chunking_def r)
  qed
qed

lemma to_metadata_char_count:
  "\<forall>c\<in>set (to_metadata d pn i cs). char_count c = length (text_field c)"
  by (induction cs arbitrary: i) auto

lemma fixed_loop_chunk_ok:
  assumes "fixed_loop self t d pn start idx chunks = Some cs"
  shows "(\<forall>c\<in>set chunks. fixed_chunk_ok c) \<longrightarrow> (\<forall>c\<in>set cs. fixed_chunk_ok c)"
proof (rule fixed_loop.raw_induct
    [where P = "\<lambda>self t d pn start idx chunks cs.
                  (\<forall>c\<in>set chunks. fixed_chunk_ok c) \<longrightarrow> (\<forall>c\<in>set cs. fixed_chunk_ok c)",
     OF _ assms], goal_cases)
  case (1 f self t d pn start idx chunks cs)
  show ?case
  proof (cases "start < int (length t)")
    case True
    let ?piece = "py_slice t start (start + chunk_size self)"
    show ?thesis
    proof (cases "strip ?piece = []")
      case T: True
      with 1(2) True have "cs = chunks" by (simp add: Let_def)
      then show ?thesis by simp
    next
      case False
      let ?c = "\<lparr>chunk_id = make_chunk_id d idx, doc_id = d, page_num = page_at pn idx,
                  chunk_index = idx, text_field = ?piece, char_count = length ?piece,
                  token_count = estimate_tokens ?piece\<rparr>"
      have run: "f self t d pn (start + chunk_size self - chunk_overlap self) (Suc idx)
               (chunks @ [?c]) = Some cs"
        using 1(2) True False by (simp add: Let_def)
      from 1(1) [OF run] False show ?thesis by (simp add: fixed_chunk_ok_def)
    qed
  next
    case False
    with 1(2) have "cs = chunks" by simp
    then show ?thesis by simp
  qed
qed

declare recursive_split_rsplit [code]

lemma strategy_distinct:
  "RECURSIVE \<noteq> FIXED" "RECURSIVE \<noteq> SEMANTIC" "SEMANTIC \<noteq> FIXED"
  "FIXED \<noteq> RECURSIVE" "SEMANTIC \<noteq> RECURSIVE" "FIXED \<noteq> SEMANTIC"
  by (simp_all add: RECURSIVE_def FIXED_def SEMANTIC_def)

subsection \<open>Chunk length under the Recursive strategy\<close>

text \<open>
  Claim C2. For every text and every \<open>chunk_size \<ge> 1\<close>, every chunk that \<open>chunk_text\<close>
  produces under the Recursive strategy has length at most \<open>chunk_size\<close>, except a
  chunk that is a single indivisible unit at the finest separator level. With
  \<open>chunk_size \<ge> 1\<close> a single character fits, so the bound holds for every chunk and the
  exception is never needed.
\<close>

theorem recursive_chunks_within_size:
  assumes "1 \<le> chunk_size self" and "strategy self = RECURSIVE"
  shows "\<exists>cs. chunk_text self t d pn = Some (Inr cs)
           \<and> (\<forall>c\<in>set cs. int (length (text_field c)) \<le> chunk_size self)"
proof -
  let ?cs = "recursive_chunking self t d pn"
  have run: "chunk_text self t d pn = Some (Inr ?cs)"
    using assms(2) by (simp add: chunk_text_def strategy_distinct)
  have "[] \<in> set (drop 0 separators)" by (simp add: separators_def)
  then have "\<forall>s\<in>set (recursive_split (chunk_size self) separators 0 t).
               int (length s) \<le> chunk_size self"
    unfolding recursive_split_rsplit using assms(1) by (rule rsplit_bound [rotated])
  then have "\<forall>s\<in>set (map text_field ?cs). int (length s) \<le> chunk_size self"
    by (simp only: recursive_chunking_def text_field_to_metadata)
  then have "\<forall>c\<in>set ?cs. int (length (text_field c)) \<le> chunk_size self" by simp
  with run show ?thesis by blast
qed

text \<open>The bound on a text that has to be split at the word level.\<close>

theorem recursive_chunks_within_size_witness:
  "1 \<le> chunk_size \<lparr>strategy = RECURSIVE, chunk_size = 8, chunk_overlap = 2\<rparr>
   \<and> chunk_texts (chunk_text \<lparr>strategy = RECURSIVE, chunk_size = 8, chunk_overlap = 2\<rparr>
                    ''hello world'' ''doc'' None)
       = [''hello'', [CHR ''w'', CHR ''o'', CHR ''r'', CHR ''l'', CHR ''d'', CHR 0x0A, CHR ''.''], ''! ?'']
   \<and> length ''hello'' \<le> 8
   \<and> length [CHR ''w'', CHR ''o'', CHR ''r'', CHR ''l'', CHR ''d'', CHR 0x0A, CHR ''.''] \<le> 8
   \<and> length ''! ?'' \<le> 8"
proof -
  let ?C = "\<lparr>strategy = RECURSIVE, chunk_size = 8, chunk_overlap = 2\<rparr>"
  have h1: "1 \<le> chunk_size ?C" by simp
  have h2: "strategy ?C = RECURSIVE" by simp
  have ev: "chunk_texts (chunk_text ?C ''hello world'' ''doc'' None)
       = [''hello'', [CHR ''w'', CHR ''o'', CHR ''r'', CHR ''l'', CHR ''d'', CHR 0x0A, CHR ''.''], ''! ?'']"
    by code_simp
  from recursive_chunks_within_size [OF h1 h2, of "''hello world''" "''doc''" None] ev
  show ?thesis by simp
qed

subsection \<open>Character and token counts\<close>

text \<open>
  Claim C10. Every chunk of the Semantic strategy has \<open>char_count\<close> and \<open>token_count\<close>
  computed from the buffer before trimming, which ends with the two line feeds appended
  after the last paragraph: \<open>char_count\<close> is the length of the text field plus two, hence
  strictly larger. For the Fixed and Recursive strategies \<open>char_count\<close> is the length of
  the text field.
\<close>

theorem char_count_of_chunks:
  "(\<forall>c\<in>set (semantic_chunking self t d pn).
       char_count c = length (text_field c) + 2 \<and> length (text_field c) < char_count c
       \<and> token_count c = (length (text_field c) + 2) div 4)
   \<and> (\<forall>c\<in>set (recursive_chunking self t d pn). char_count c = length (text_field c))
   \<and> (\<forall>cs. fixed_size_chunking self t d pn = Some cs
          \<longrightarrow> (\<forall>c\<in>set cs. char_count c = length (text_field c)))"
proof (intro conjI allI impI)
  show "\<forall>c\<in>set (semantic_chunking self t d pn).
       char_count c = length (text_field c) + 2 \<and> length (text_field c) < char_count c
       \<and> token_count c = (length (text_field c) + 2) div 4"
    using semantic_chunking_ok [of self t d pn] by (auto simp: semantic_chunk_ok_def)
  show "\<forall>c\<in>set (recursive_chunking self t d pn). char_count c = length (text_field c)"
    unfolding recursive_chunking_def by (rule to_metadata_char_count)
next
  fix cs assume "fixed_size_chunking self t d pn = Some cs"
  then have "fixed_loop self t d pn 0 0 [] = Some cs" by (simp add: fixed_size_chunking_def)
  from fixed_loop_chunk_ok [OF this]
  show "\<forall>c\<in>set cs. char_count c = length (text_field c)" by (simp add: fixed_chunk_ok_def)
qed

text \<open>The three strategies on concrete texts.\<close>

theorem char_count_of_chunks_witness:
  "map (\<lambda>c. (length (text_field c), char_count c, token_count c))
     (semantic_chunking \<lparr>strategy = SEMANTIC, chunk_size = 30, chunk_overlap = 5\<rparr>
        (''Para one.'' @ [CHR 0x0A, CHR 0x0A] @ ''Para two is longer and talks about cats.''
          @ [CHR 0x0A, CHR 0x0A] @ ''Para three.'') ''doc'' None)
     = [(9, 11, 2), (40, 42, 10), (11, 13, 3)]
   \<and> map (\<lambda>c. (length (text_field c), char_count c))
       (recursive_chunking \<lparr>strategy = RECURSIVE, chunk_size = 8, chunk_overlap = 2\<rparr>
          ''hello world'' ''doc'' None)
     = [(5, 5), (7, 7), (3, 3)]
   \<and> map_option (map (\<lambda>c. (length (text_field c), char_count c)))
       (fixed_size_chunking \<lparr>strategy = FIXED, chunk_size = 4, chunk_overlap = 2\<rparr>
          ''abcdefghij'' ''doc'' None)
     = Some [(4, 4), (4, 4), (4, 4), (4, 4), (2, 2)]"
proof -
  have sem: "map (\<lambda>c. (length (text_field c), char_count c, token_count c))
     (semantic_chunking \<lparr>strategy = SEMANTIC, chunk_size = 30, chunk_overlap = 5\<rparr>
        (''Para one.'' @ [CHR 0x0A, CHR 0x0A] @ ''Para two is longer and talks about cats.''
          @ [CHR 0x0A, CHR 0x0A] @ ''Para three.'') ''doc'' None)
     = [(9, 11, 2), (40, 42, 10), (11, 13, 3)]"
    by code_simp
  have recu: "map (\<lambda>c. (length (text_field c), char_count c))
       (recursive_chunking \<lparr>strategy = RECURSIVE, chunk_size = 8, chunk_overlap = 2\<rparr>
          ''hello world'' ''doc'' None)
     = [(5, 5), (7, 7), (3, 3)]"
    by code_simp
  have fixd: "map_option (map (\<lambda>c. (length (text_field c), char_count c)))
       (fixed_size_chunking \<lparr>strategy = FIXED, chunk_size = 4, chunk_overlap = 2\<rparr>
          ''abcdefghij'' ''doc'' None)
     = Some [(4, 4), (4, 4), (4, 4), (4, 4), (2, 2)]"
    by code_simp
  from char_count_of_chunks
         [of "\<lparr>strategy = SEMANTIC, chunk_size = 30, chunk_overlap = 5\<rparr>"
             "''Para one.'' @ [CHR 0x0A, CHR 0x0A] @ ''Para two is longer and talks about cats.''
                @ [CHR 0x0A, CHR 0x0A] @ ''Para three.''" "''doc''" None]
       sem recu fixd
  show ?thesis by simp
qed

subsection \<open>Blank chunks\<close>

text \<open>
  Claim C9 says that no strategy returns a chunk whose text is empty after trimming. In
  \<open>_recursive_split\<close> the flush inside the loop tests \<open>current_chunk\<close> and not
  \<open>current_chunk.strip()\<close>, as the flush after the loop does: a buffer that holds only
  whitespace is appended as the empty string. Here the text starts with a blank line and
  the paragraph after it does not fit into the buffer.
\<close>

theorem recursive_emits_empty_chunk:
  "chunk_text \<lparr>strategy = RECURSIVE, chunk_size = 5, chunk_overlap = 1\<rparr>
     ([CHR 0x0A, CHR 0x0A] @ ''abcd'') ''doc'' None =
   Some (Inr [\<lparr>chunk_id = ''doc_chunk_0'', doc_id = ''doc'', page_num = None, chunk_index = 0,
                text_field = '''', char_count = 0, token_count = 0\<rparr>,
              \<lparr>chunk_id = ''doc_chunk_1'', doc_id = ''doc'', page_num = None, chunk_index = 1,
                text_field = ''abcd'', char_count = 4, token_count = 1\<rparr>])"
  by code_simp


subsection \<open>What the Recursive strategy keeps of the text\<close>

lemma split_sep_not_Nil: "split_sep sep t \<noteq> []"
  by (induction sep t rule: split_sep.induct) (auto split: list.splits)

lemma split_sep_join:
  "sep \<noteq> [] \<Longrightarrow> concat (map (\<lambda>s. s @ sep) (split_sep sep t)) = t @ sep"
proof (induction sep t rule: split_sep.induct)
  case (1 sep)
  then show ?case by simp
next
  case (2 sep c cs)
  show ?case
  proof (cases "prefix sep (c # cs)")
    case True
    then have "c # cs = sep @ drop (length sep) (c # cs)"
      by (metis append_eq_conv_conj prefix_def)
    moreover have "concat (map (\<lambda>s. s @ sep) (split_sep sep (drop (length sep) (c # cs))))
                   = drop (length sep) (c # cs) @ sep"
      using 2(1) 2(3) True by simp
    ultimately show ?thesis using True 2(3) by (simp del: drop_Suc_Cons)
  next
    case False
    obtain p ps where ps: "split_sep sep cs = p # ps"
      using split_sep_not_Nil [of sep cs] by (cases "split_sep sep cs") auto
    have "concat (map (\<lambda>s. s @ sep) (split_sep sep cs)) = cs @ sep"
      using 2(2) 2(3) False by simp
    then show ?thesis using False ps by simp
  qed
qed

lemma chars_join: "concat (map (\<lambda>c. [c]) t) = t"
  by (induction t) auto

lemma non_space_append: "non_space (a @ b) = non_space a @ non_space b"
  by (simp add: non_space_def)

lemma non_space_concat_append:
  "non_space (concat (xs @ ys)) = non_space (concat xs) @ non_space (concat ys)"
  by (simp add: non_space_def)

lemma split_loop_keeps:
  assumes "\<And>t. subseq (non_space t) (non_space (concat (sub t)))"
  shows "subseq
           (non_space (concat chunks) @ non_space cur
              @ non_space (concat (map (\<lambda>s. if sep \<noteq> [] then s @ sep else s) splits)))
           (non_space (concat (fst (split_loop n sub sep splits chunks cur)))
              @ non_space (snd (split_loop n sub sep splits chunks cur)))"
proof (induction splits arbitrary: chunks cur)
  case Nil
  then show ?case by (simp add: non_space_def)
next
  case (Cons s splits)
  let ?sws = "if sep \<noteq> [] then s @ sep else s"
  let ?rest = "non_space (concat (map (\<lambda>s. if sep \<noteq> [] then s @ sep else s) splits))"
  have goal_lhs: "non_space (concat (map (\<lambda>s. if sep \<noteq> [] then s @ sep else s) (s # splits)))
                  = non_space ?sws @ ?rest"
    by (simp add: non_space_append)
  show ?case
  proof (cases "int (length cur) + int (length ?sws) \<le> n")
    case True
    have "split_loop n sub sep (s # splits) chunks cur
          = split_loop n sub sep splits chunks (cur @ ?sws)"
      using True by (simp add: Let_def)
    moreover have "non_space (concat chunks) @ non_space (cur @ ?sws) @ ?rest
                   = non_space (concat chunks) @ non_space cur @ non_space ?sws @ ?rest"
      by (simp add: non_space_append)
    ultimately show ?thesis
      using Cons.IH [of chunks "cur @ ?sws"] by (simp only: goal_lhs)
  next
    case False
    let ?chunks1 = "if cur \<noteq> [] then chunks @ [strip cur] else chunks"
    have c1: "non_space (concat ?chunks1) = non_space (concat chunks) @ non_space cur"
      by (simp add: non_space_append non_space_strip) (simp add: non_space_def)
    show ?thesis
    proof (cases "n < int (length ?sws)")
      case True
      have run: "split_loop n sub sep (s # splits) chunks cur
            = split_loop n sub sep splits (?chunks1 @ sub ?sws) []"
        using False True by (simp add: Let_def)
      have "subseq (non_space (concat chunks) @ non_space cur @ non_space ?sws @ ?rest)
                   (non_space (concat chunks) @ non_space cur
                      @ non_space (concat (sub ?sws)) @ ?rest)"
        by (intro list_emb_append_mono subseq_order.order_refl assms)
      also have "\<dots> = non_space (concat (?chunks1 @ sub ?sws)) @ non_space [] @ ?rest"
        by (simp only: non_space_concat_append c1) (simp add: non_space_def)
      also have "subseq \<dots> (non_space (concat (fst (split_loop n sub sep splits (?chunks1 @ sub ?sws) [])))
              @ non_space (snd (split_loop n sub sep splits (?chunks1 @ sub ?sws) [])))"
        by (rule Cons.IH)
      finally show ?thesis by (simp only: goal_lhs run)
    next
      case F2: False
      have run: "split_loop n sub sep (s # splits) chunks cur
            = split_loop n sub sep splits ?chunks1 ?sws"
        using False F2 by (simp add: Let_def)
      have "non_space (concat chunks) @ non_space cur @ non_space ?sws @ ?rest
            = non_space (concat ?chunks1) @ non_space ?sws @ ?rest"
        by (simp only: c1 append_assoc)
      also have "subseq \<dots> (non_space (concat (fst (split_loop n sub sep splits ?chunks1 ?sws)))
              @ non_space (snd (split_loop n sub sep splits ?chunks1 ?sws)))"
        by (rule Cons.IH)
      finally show ?thesis by (simp only: goal_lhs run)
    qed
  qed
qed

lemma rsplit_keeps: "subseq (non_space t) (non_space (concat (rsplit n seps t)))"
proof (induction seps arbitrary: t)
  case Nil
  then show ?case by simp
next
  case (Cons sep rest)
  let ?splits = "if sep \<noteq> [] then split_sep sep t else map (\<lambda>c. [c]) t"
  let ?r = "split_loop n (\<lambda>t. rsplit n rest t) sep ?splits [] []"
  have joined: "concat (map (\<lambda>s. if sep \<noteq> [] then s @ sep else s) ?splits) = t @ sep"
  proof (cases "sep = []")
    case True
    then show ?thesis by (simp add: chars_join comp_def)
  next
    case False
    then show ?thesis by (simp add: split_sep_join)
  qed
  have "subseq (non_space (concat []) @ non_space []
                  @ non_space (concat (map (\<lambda>s. if sep \<noteq> [] then s @ sep else s) ?splits)))
               (non_space (concat (fst ?r)) @ non_space (snd ?r))"
    by (rule split_loop_keeps) (rule Cons.IH)
  then have 1: "subseq (non_space (t @ sep)) (non_space (concat (fst ?r)) @ non_space (snd ?r))"
    by (simp only: joined) (simp add: non_space_def)
  have "subseq (non_space t) (non_space (t @ sep))"
    by (simp add: non_space_append list_emb_prefix)
  with 1 have 2: "subseq (non_space t) (non_space (concat (fst ?r)) @ non_space (snd ?r))"
    by (rule subseq_order.order_trans [rotated])
  show ?case
  proof (cases "strip (snd ?r) \<noteq> []")
    case True
    have "non_space (concat (fst ?r @ [strip (snd ?r)]))
          = non_space (concat (fst ?r)) @ non_space (snd ?r)"
      by (simp add: non_space_append non_space_strip)
    with 2 True show ?thesis by (simp add: Let_def)
  next
    case False
    then have "non_space (snd ?r) = []" by (simp add: strip_empty_iff)
    with 2 False show ?thesis by (simp add: Let_def)
  qed
qed

text \<open>
  What the splitter does keep: no character of the input other than whitespace is
  dropped. The statement says nothing about the characters that the chunks hold in
  addition.
\<close>

lemma recursive_keeps_non_space:
  assumes "strategy self = RECURSIVE"
  shows "\<exists>cs. chunk_text self t d pn = Some (Inr cs)
           \<and> subseq (non_space t) (non_space (concat (map text_field cs)))"
proof -
  let ?cs = "recursive_chunking self t d pn"
  have run: "chunk_text self t d pn = Some (Inr ?cs)"
    using assms by (simp add: chunk_text_def strategy_distinct)
  have "map text_field ?cs = rsplit (chunk_size self) separators t"
    by (simp add: recursive_chunking_def text_field_to_metadata recursive_split_rsplit)
  then have "subseq (non_space t) (non_space (concat (map text_field ?cs)))"
    by (simp only: rsplit_keeps)
  with run show ?thesis by blast
qed

text \<open>
  Claim C1 says that the chunks of the Recursive strategy, with the separators restored,
  give back content equivalent to the input. The comment in \<open>_recursive_split\<close> reads
  ``Add separator back'', and the code appends the separator to every piece of a split,
  the last one included, after which no separator stood. The text \<open>hello world\<close> with
  \<open>chunk_size = 8\<close> and \<open>chunk_overlap = 2\<close> has no line feed and no punctuation;
  its chunks hold a line feed, a full stop, an exclamation mark and a question mark, so
  that even without all whitespace they are not the input.
\<close>

theorem recursive_adds_separators:
  "chunk_text \<lparr>strategy = RECURSIVE, chunk_size = 8, chunk_overlap = 2\<rparr>
     ''hello world'' ''doc'' None =
   Some (Inr [\<lparr>chunk_id = ''doc_chunk_0'', doc_id = ''doc'', page_num = None,
                chunk_index = 0, text_field = ''hello'', char_count = 5, token_count = 1\<rparr>,
              \<lparr>chunk_id = ''doc_chunk_1'', doc_id = ''doc'', page_num = None,
                chunk_index = 1,
                text_field = [CHR ''w'', CHR ''o'', CHR ''r'', CHR ''l'', CHR ''d'', CHR 0x0A,
                              CHR ''.''],
                char_count = 7, token_count = 1\<rparr>,
              \<lparr>chunk_id = ''doc_chunk_2'', doc_id = ''doc'', page_num = None,
                chunk_index = 2, text_field = ''! ?'', char_count = 3, token_count = 0\<rparr>])
   \<and> non_space (concat (chunk_texts
         (chunk_text \<lparr>strategy = RECURSIVE, chunk_size = 8, chunk_overlap = 2\<rparr>
            ''hello world'' ''doc'' None))) = ''helloworld.!?''
   \<and> non_space ''hello world'' = ''helloworld''"
  by code_simp

subsection \<open>The Fixed strategy\<close>

lemma py_slice_window:
  assumes "0 \<le> a" and "a \<le> b"
  shows "py_slice s a b = take (nat (b - a)) (drop (nat a) s)"
proof (cases "a < int (length s)")
  case True
  then have "take (nat (min b (int (length s)) - a)) (drop (nat a) s)
             = take (nat (b - a)) (drop (nat a) s)"
    using assms by (cases "b \<le> int (length s)") (simp_all add: min_def)
  moreover have "a < b \<or> a = b" using assms(2) by linarith
  ultimately show ?thesis using True assms by (auto simp: py_slice_def Let_def min_def)
next
  case False
  then show ?thesis using assms by (simp add: py_slice_def Let_def min_def)
qed

lemma ceiling_quotient:
  fixes n k step :: nat
  assumes "0 < step" and "n \<le> k * step" and "k = 0 \<or> (k - 1) * step < n"
  shows "\<lceil>real n / real step\<rceil> = int k"
proof (rule ceiling_unique)
  have "real n \<le> real (k * step)" using assms(2) by (simp only: of_nat_le_iff)
  then show "real n / real step \<le> of_int (int k)"
    using assms(1) by (simp add: pos_divide_le_eq)
  show "of_int (int k) - 1 < real n / real step"
  proof (cases "k = 0")
    case True
    have "0 \<le> real n / real step" by simp
    then have "- 1 < real n / real step" by linarith
    with True show ?thesis by simp
  next
    case False
    then have "(k - 1) * step < n" using assms(3) by simp
    then have "real ((k - 1) * step) < real n" by (simp only: of_nat_less_iff)
    moreover have "real (k - 1) = real k - 1" using False by (simp add: of_nat_diff)
    ultimately show ?thesis using assms(1) by (simp add: pos_less_divide_eq)
  qed
qed

lemma ceiling_quotient_ge:
  fixes n k step :: nat
  assumes "0 < step" and "k = 0 \<or> (k - 1) * step < n"
  shows "int k \<le> \<lceil>real n / real step\<rceil>"
proof (cases "k = 0")
  case True
  have "0 \<le> real n / real step" by simp
  then have "0 \<le> \<lceil>real n / real step\<rceil>" by (simp only: zero_le_ceiling)
  with True show ?thesis by simp
next
  case False
  then have "(k - 1) * step < n" using assms(2) by simp
  then have "real ((k - 1) * step) < real n" by (simp only: of_nat_less_iff)
  moreover have "real (k - 1) = real k - 1" using False by (simp add: of_nat_diff)
  ultimately have "real k - 1 < real n / real step"
    using assms(1) by (simp add: pos_less_divide_eq)
  then have "real_of_int (int k - 1) < real n / real step" by simp
  then have "int k - 1 < \<lceil>real n / real step\<rceil>" by (simp only: less_ceiling_iff)
  then show ?thesis by simp
qed

lemma fixed_loop_windows:
  assumes "0 < chunk_size self" and "chunk_overlap self < chunk_size self"
  shows "\<exists>cs. fixed_loop self t d pn
                (int (idx * nat (chunk_size self - chunk_overlap self))) idx chunks
              = Some (chunks @ cs)
           \<and> (\<forall>j<length cs. text_field (cs ! j) = fixed_window self t (idx + j)
                  \<and> chunk_index (cs ! j) = idx + j
                  \<and> (idx + j) * nat (chunk_size self - chunk_overlap self) < length t)
           \<and> ((\<forall>i\<ge>idx. i * nat (chunk_size self - chunk_overlap self) < length t
                   \<longrightarrow> strip (fixed_window self t i) \<noteq> [])
                \<longrightarrow> length t \<le> (idx + length cs) * nat (chunk_size self - chunk_overlap self))"
proof (induction "length t - idx * nat (chunk_size self - chunk_overlap self)"
        arbitrary: idx chunks rule: less_induct)
  case less
  let ?step = "nat (chunk_size self - chunk_overlap self)"
  let ?start = "int (idx * ?step)"
  have step: "0 < ?step" "int ?step = chunk_size self - chunk_overlap self"
    using assms by simp_all
  show ?case
  proof (cases "idx * ?step < length t")
    case False
    then have "\<not> ?start < int (length t)" by (metis of_nat_less_iff)
    then have r: "fixed_loop self t d pn ?start idx chunks = Some (chunks @ [])"
      by (subst fixed_loop.simps) (simp only: if_False append_Nil2)
    have e: "length t \<le> (idx + length ([]::ChunkMetadata list)) * ?step"
      using False by simp
    show ?thesis
      by (intro exI [of _ "[]"] conjI impI, rule r, simp, rule e)
  next
    case True
    let ?piece = "py_slice t ?start (?start + chunk_size self)"
    have a0: "0 \<le> ?start" by (rule of_nat_0_le_iff)
    have ab: "?start \<le> ?start + chunk_size self" using assms(1) by linarith
    have "?piece = take (nat (?start + chunk_size self - ?start)) (drop (nat ?start) t)"
      using a0 ab by (rule py_slice_window)
    then have piece: "?piece = fixed_window self t idx"
      by (simp only: nat_int add_diff_cancel_left' fixed_window_def)
    show ?thesis
    proof (cases "strip ?piece = []")
      case blank: True
      have "?start < int (length t)" using True by (metis of_nat_less_iff)
      then have r: "fixed_loop self t d pn ?start idx chunks = Some (chunks @ [])"
        using blank by (subst fixed_loop.simps) (simp only: Let_def if_True append_Nil2 simp_thms)
      have neg: "\<not> (\<forall>i\<ge>idx. i * ?step < length t \<longrightarrow> strip (fixed_window self t i) \<noteq> [])"
        using True blank piece by auto
      show ?thesis
        by (intro exI [of _ "[]"] conjI, rule r, simp, use neg in blast)
    next
      case False
      let ?c = "\<lparr>chunk_id = make_chunk_id d idx, doc_id = d, page_num = page_at pn idx,
                  chunk_index = idx, text_field = ?piece, char_count = length ?piece,
                  token_count = estimate_tokens ?piece\<rparr>"
      have next_start: "?start + chunk_size self - chunk_overlap self = int (Suc idx * ?step)"
        using step(2) by (simp add: algebra_simps)
      have "?start < int (length t)" using True by (metis of_nat_less_iff)
      then have unfold: "fixed_loop self t d pn ?start idx chunks
                    = fixed_loop self t d pn (int (Suc idx * ?step)) (Suc idx) (chunks @ [?c])"
        using False by (subst fixed_loop.simps) (simp only: next_start Let_def if_True if_False simp_thms)
      have "length t - Suc idx * ?step < length t - idx * ?step"
        using True step(1) by simp
      from less [OF this, of "chunks @ [?c]"]
      obtain cs where cs:
        "fixed_loop self t d pn (int (Suc idx * ?step)) (Suc idx) (chunks @ [?c])
           = Some ((chunks @ [?c]) @ cs)"
        "\<forall>j<length cs. text_field (cs ! j) = fixed_window self t (Suc idx + j)
                  \<and> chunk_index (cs ! j) = Suc idx + j
                  \<and> (Suc idx + j) * ?step < length t"
        "(\<forall>i\<ge>Suc idx. i * ?step < length t \<longrightarrow> strip (fixed_window self t i) \<noteq> [])
                \<longrightarrow> length t \<le> (Suc idx + length cs) * ?step"
        by blast
      have 1: "fixed_loop self t d pn ?start idx chunks = Some (chunks @ (?c # cs))"
        using unfold cs(1) by simp
      have 2: "\<forall>j<length (?c # cs). text_field ((?c # cs) ! j) = fixed_window self t (idx + j)
                  \<and> chunk_index ((?c # cs) ! j) = idx + j
                  \<and> (idx + j) * ?step < length t"
      proof (intro allI impI)
        fix j assume "j < length (?c # cs)"
        then show "text_field ((?c # cs) ! j) = fixed_window self t (idx + j)
                  \<and> chunk_index ((?c # cs) ! j) = idx + j
                  \<and> (idx + j) * ?step < length t"
          using cs(2) True piece by (cases j) simp_all
      qed
      have 3: "(\<forall>i\<ge>idx. i * ?step < length t \<longrightarrow> strip (fixed_window self t i) \<noteq> [])
                \<longrightarrow> length t \<le> (idx + length (?c # cs)) * ?step"
        using cs(3) by simp
      from 1 2 3 show ?thesis by blast
    qed
  qed
qed

text \<open>
  Claim C8, as amended. For the Fixed strategy with \<open>0 < chunk_size\<close> and
  \<open>chunk_overlap < chunk_size\<close>, \<open>chunk_text\<close> returns; chunk \<open>i\<close> is the window of
  \<open>chunk_size\<close> characters that starts at offset \<open>i * (chunk_size - chunk_overlap)\<close>;
  the number of chunks is at most \<open>ceil(len(text) / (chunk_size - chunk_overlap))\<close>,
  and it is that number when no window that starts inside the text is blank.
\<close>

theorem fixed_offsets_and_count:
  assumes "0 < chunk_size self" and "chunk_overlap self < chunk_size self"
      and "strategy self = FIXED"
  shows "\<exists>cs. chunk_text self t d pn = Some (Inr cs)
           \<and> (\<forall>i<length cs. text_field (cs ! i) = fixed_window self t i
                  \<and> chunk_index (cs ! i) = i)
           \<and> int (length cs)
               \<le> \<lceil>real (length t) / real_of_int (chunk_size self - chunk_overlap self)\<rceil>
           \<and> ((\<forall>i. i * nat (chunk_size self - chunk_overlap self) < length t
                   \<longrightarrow> strip (fixed_window self t i) \<noteq> [])
                \<longrightarrow> int (length cs)
                    = \<lceil>real (length t) / real_of_int (chunk_size self - chunk_overlap self)\<rceil>)"
proof -
  let ?step = "nat (chunk_size self - chunk_overlap self)"
  have step: "0 < ?step" "real_of_int (chunk_size self - chunk_overlap self) = real ?step"
    using assms(1,2) by simp_all
  from fixed_loop_windows [OF assms(1,2), of t d pn 0 "[]"]
  obtain cs where cs:
    "fixed_loop self t d pn 0 0 [] = Some cs"
    "\<forall>j<length cs. text_field (cs ! j) = fixed_window self t j
                  \<and> chunk_index (cs ! j) = j \<and> j * ?step < length t"
    "(\<forall>i. i * ?step < length t \<longrightarrow> strip (fixed_window self t i) \<noteq> [])
                \<longrightarrow> length t \<le> length cs * ?step"
    by auto
  have run: "chunk_text self t d pn = Some (Inr cs)"
    using assms(3) cs(1) by (simp add: chunk_text_def fixed_size_chunking_def)
  have last_in: "length cs = 0 \<or> (length cs - 1) * ?step < length t"
    using cs(2) by (cases "length cs") auto
  have le: "int (length cs) \<le> \<lceil>real (length t) / real ?step\<rceil>"
    using step(1) last_in by (rule ceiling_quotient_ge)
  have eq: "(\<forall>i. i * ?step < length t \<longrightarrow> strip (fixed_window self t i) \<noteq> [])
            \<longrightarrow> int (length cs) = \<lceil>real (length t) / real ?step\<rceil>"
  proof
    assume "\<forall>i. i * ?step < length t \<longrightarrow> strip (fixed_window self t i) \<noteq> []"
    with cs(3) have "length t \<le> length cs * ?step" by simp
    with step(1) have "\<lceil>real (length t) / real ?step\<rceil> = int (length cs)"
      using last_in by (rule ceiling_quotient)
    then show "int (length cs) = \<lceil>real (length t) / real ?step\<rceil>" by simp
  qed
  from run cs(2) le eq show ?thesis unfolding step(2) by blast
qed

theorem fixed_offsets_and_count_witness:
  "0 < chunk_size \<lparr>strategy = FIXED, chunk_size = 4, chunk_overlap = 2\<rparr>
   \<and> chunk_overlap \<lparr>strategy = FIXED, chunk_size = 4, chunk_overlap = 2\<rparr>
       < chunk_size \<lparr>strategy = FIXED, chunk_size = 4, chunk_overlap = 2\<rparr>
   \<and> chunk_texts (chunk_text \<lparr>strategy = FIXED, chunk_size = 4, chunk_overlap = 2\<rparr>
         ''abcdefghij'' ''doc'' None) = [''abcd'', ''cdef'', ''efgh'', ''ghij'', ''ij'']
   \<and> fixed_window \<lparr>strategy = FIXED, chunk_size = 4, chunk_overlap = 2\<rparr> ''abcdefghij'' 4
       = ''ij''
   \<and> \<lceil>real (length ''abcdefghij'') / real_of_int (4 - 2)\<rceil> = 5"
proof -
  let ?C = "\<lparr>strategy = FIXED, chunk_size = 4, chunk_overlap = 2\<rparr>"
  have h1: "0 < chunk_size ?C" by simp
  have h2: "chunk_overlap ?C < chunk_size ?C" by simp
  have h3: "strategy ?C = FIXED" by simp
  have e1: "chunk_texts (chunk_text ?C ''abcdefghij'' ''doc'' None)
            = [''abcd'', ''cdef'', ''efgh'', ''ghij'', ''ij'']"
    by code_simp
  have e2: "fixed_window ?C ''abcdefghij'' 4 = ''ij''"
    by (simp add: fixed_window_def)
  have e3: "\<lceil>real (length ''abcdefghij'') / real_of_int (4 - 2)\<rceil> = 5"
    by simp
  from fixed_offsets_and_count [OF h1 h2 h3, of "''abcdefghij''" "''doc''" None] h1 h2 e1 e2 e3
  show ?thesis by blast
qed

text \<open>
  Claim C8 as it is written gives \<open>ceil((len(text) - chunk_overlap) / (chunk_size -
  chunk_overlap))\<close> chunks. The loop runs while \<open>start < len(text)\<close>, so it also emits the
  last window, which lies inside the overlap of the one before: ten characters without
  whitespace, windows of four and an overlap of two give five chunks, not four.
\<close>

theorem fixed_count_counterexample:
  "chunk_count (chunk_text \<lparr>strategy = FIXED, chunk_size = 4, chunk_overlap = 2\<rparr>
      ''abcdefghij'' ''doc'' None) = Some 5
   \<and> spec_fixed_chunk_count (length ''abcdefghij'') 4 2 = 4"
proof
  show "chunk_count (chunk_text \<lparr>strategy = FIXED, chunk_size = 4, chunk_overlap = 2\<rparr>
      ''abcdefghij'' ''doc'' None) = Some 5"
    by code_simp
  show "spec_fixed_chunk_count (length ''abcdefghij'') 4 2 = 4"
    by (simp add: spec_fixed_chunk_count_def)
qed

subsection \<open>An overlap that is not smaller than the chunk size\<close>

lemma semantic_loop_overlap:
  "semantic_loop (self\<lparr>chunk_overlap := ov\<rparr>) d pn ps chunks cur idx
   = semantic_loop self d pn ps chunks cur idx"
  by (induction ps arbitrary: chunks cur idx) (simp_all add: Let_def)

text \<open>
  With \<open>chunk_overlap = chunk_size\<close> the Fixed strategy does not advance: on a text whose
  first window is not blank the loop never returns.
\<close>

lemma fixed_loop_stuck:
  assumes "fixed_loop self t d pn start idx chunks = Some cs"
  shows "\<not> (start = 0 \<and> chunk_overlap self = chunk_size self \<and> t \<noteq> []
            \<and> strip (py_slice t 0 (chunk_size self)) \<noteq> [])"
proof (rule fixed_loop.raw_induct
    [where P = "\<lambda>self t d pn start idx chunks cs.
                  \<not> (start = 0 \<and> chunk_overlap self = chunk_size self \<and> t \<noteq> []
                      \<and> strip (py_slice t 0 (chunk_size self)) \<noteq> [])",
     OF _ assms], goal_cases)
  case (1 f self t d pn start idx chunks cs)
  show ?case
  proof
    assume a: "start = 0 \<and> chunk_overlap self = chunk_size self \<and> t \<noteq> []
                \<and> strip (py_slice t 0 (chunk_size self)) \<noteq> []"
    then have "f self t d pn 0 (Suc idx)
                 (chunks @ [\<lparr>chunk_id = make_chunk_id d idx, doc_id = d,
                              page_num = page_at pn idx, chunk_index = idx,
                              text_field = py_slice t 0 (chunk_size self),
                              char_count = length (py_slice t 0 (chunk_size self)),
                              token_count = estimate_tokens (py_slice t 0 (chunk_size self))\<rparr>])
               = Some cs"
      using 1(2) by (simp add: Let_def)
    from 1(1) [OF this] a show False by simp
  qed
qed

lemma fixed_size_chunking_diverges:
  assumes "chunk_overlap self = chunk_size self" and "t \<noteq> []"
      and "strip (py_slice t 0 (chunk_size self)) \<noteq> []"
  shows "fixed_size_chunking self t d pn = None"
proof (cases "fixed_size_chunking self t d pn")
  case None
  then show ?thesis .
next
  case (Some cs)
  then have "fixed_loop self t d pn 0 0 [] = Some cs" by (simp add: fixed_size_chunking_def)
  from fixed_loop_stuck [OF this] assms show ?thesis by simp
qed

text \<open>
  Claim C5, as amended. Nothing in the chunker compares \<open>chunk_overlap\<close> with
  \<open>chunk_size\<close>. For \<open>chunk_overlap \<ge> chunk_size\<close>, the Recursive and the Semantic
  strategy return the chunks that they return for any other overlap; no strategy raises a
  configuration error because of the overlap: the only error of \<open>chunk_text\<close> is the one
  for an unknown strategy.
\<close>

theorem overlap_is_not_validated:
  assumes "chunk_size self \<le> chunk_overlap self"
  shows "(strategy self = RECURSIVE \<or> strategy self = SEMANTIC \<longrightarrow>
            (\<exists>cs. chunk_text self t d pn = Some (Inr cs)
                \<and> chunk_text (self\<lparr>chunk_overlap := ov\<rparr>) t d pn = Some (Inr cs)))
         \<and> (chunk_text self t d pn = Some (Inl e) \<longrightarrow>
              e = ValueError \<and> strategy self \<noteq> FIXED \<and> strategy self \<noteq> RECURSIVE
              \<and> strategy self \<noteq> SEMANTIC)"
proof (intro conjI impI)
  assume "strategy self = RECURSIVE \<or> strategy self = SEMANTIC"
  then show "\<exists>cs. chunk_text self t d pn = Some (Inr cs)
                \<and> chunk_text (self\<lparr>chunk_overlap := ov\<rparr>) t d pn = Some (Inr cs)"
  proof
    assume "strategy self = RECURSIVE"
    then show ?thesis
      by (simp add: chunk_text_def strategy_distinct recursive_chunking_def)
  next
    assume "strategy self = SEMANTIC"
    then show ?thesis
      by (simp add: chunk_text_def strategy_distinct semantic_chunking_def semantic_loop_overlap)
  qed
next
  assume "chunk_text self t d pn = Some (Inl e)"
  then show "e = ValueError" by (auto simp: chunk_text_def split: if_splits)
next
  assume "chunk_text self t d pn = Some (Inl e)"
  then show "strategy self \<noteq> FIXED" by (auto simp: chunk_text_def split: if_splits)
next
  assume "chunk_text self t d pn = Some (Inl e)"
  then show "strategy self \<noteq> RECURSIVE" by (auto simp: chunk_text_def split: if_splits)
next
  assume "chunk_text self t d pn = Some (Inl e)"
  then show "strategy self \<noteq> SEMANTIC" by (auto simp: chunk_text_def split: if_splits)
qed

theorem overlap_is_not_validated_witness:
  "chunk_size (TextChunker_init default_settings (Some RECURSIVE) (Some 10) (Some 20))
     \<le> chunk_overlap (TextChunker_init default_settings (Some RECURSIVE) (Some 10) (Some 20))
   \<and> chunk_texts (chunk_text
         (TextChunker_init default_settings (Some RECURSIVE) (Some 10) (Some 20))
         ''hello'' ''doc'' None) = [''hello'']
   \<and> chunk_texts (chunk_text
         ((TextChunker_init default_settings (Some RECURSIVE) (Some 10) (Some 20))
            \<lparr>chunk_overlap := 3\<rparr>)
         ''hello'' ''doc'' None) = [''hello'']"
proof -
  let ?C = "TextChunker_init default_settings (Some RECURSIVE) (Some 10) (Some 20)"
  have h: "chunk_size ?C \<le> chunk_overlap ?C"
    by (simp add: TextChunker_init_def)
  have e1: "chunk_texts (chunk_text ?C ''hello'' ''doc'' None) = [''hello'']"
    by code_simp
  have e2: "chunk_texts (chunk_text (?C\<lparr>chunk_overlap := 3\<rparr>) ''hello'' ''doc'' None)
            = [''hello'']"
    by code_simp
  from overlap_is_not_validated [OF h, of "''hello''" "''doc''" None 3 ValueError] h e1 e2
  show ?thesis
    apply -
    apply (intro conjI)
      apply assumption+
    done
qed

text \<open>
  Claim C5 as it is written asks for a configuration error before any chunk is produced.
  With \<open>chunk_size = 10\<close> and \<open>chunk_overlap = 20\<close> the call returns a chunk.
\<close>

theorem overlap_not_rejected_counterexample:
  "chunk_document default_settings ''hello'' ''doc'' (Some RECURSIVE) (Some 10) (Some 20) None
   = Some (Inr [\<lparr>chunk_id = ''doc_chunk_0'', doc_id = ''doc'', page_num = None,
                  chunk_index = 0, text_field = ''hello'', char_count = 5,
                  token_count = 1\<rparr>])"
  by code_simp

section \<open>Properties of the vector store\<close>

subsection \<open>Sorting and slicing\<close>

lemma py_sort_desc_sorted: "sorted_wrt (\<lambda>x y. key y \<le> key x) (py_sort_desc key xs)"
proof -
  have "sorted (map key (sort_key key (rev xs)))" by (rule sorted_sort_key)
  then have "sorted_wrt (\<lambda>x y. key x \<le> key y) (sort_key key (rev xs))"
    by (simp add: sorted_wrt_map)
  then show ?thesis by (simp add: py_sort_desc_def sorted_wrt_rev)
qed

lemma py_sort_desc_stable:
  "filter (\<lambda>x. key x = v) (py_sort_desc key xs) = filter (\<lambda>x. key x = v) xs"
proof -
  have "filter (\<lambda>x. key x = v) (py_sort_desc key xs)
        = rev (filter (\<lambda>x. key x = v) (sort_key key (rev xs)))"
    by (simp add: py_sort_desc_def rev_filter)
  also have "\<dots> = rev (filter (\<lambda>x. key x = v) (rev xs))"
    by (simp only: sort_key_stable)
  also have "\<dots> = filter (\<lambda>x. key x = v) xs" by (simp add: rev_filter)
  finally show ?thesis .
qed

lemma py_sort_desc_length: "length (py_sort_desc key xs) = length xs"
  by (simp add: py_sort_desc_def)

lemma py_sort_desc_set: "set (py_sort_desc key xs) = set xs"
  by (simp add: py_sort_desc_def)

lemma py_sort_desc_id:
  assumes "sorted_wrt (\<lambda>x y. key y \<le> key x) xs"
  shows "py_sort_desc key xs = xs"
proof -
  have "sorted_wrt (\<lambda>x y. key x \<le> key y) (rev xs)"
    using assms by (simp add: sorted_wrt_rev)
  then have "sorted (map key (rev xs))" by (simp add: sorted_wrt_map)
  then have "sort_key key (rev xs) = rev xs" by (rule sort_key_id_if_sorted)
  then show ?thesis by (simp add: py_sort_desc_def)
qed

lemma py_slice_prefix:
  "py_slice xs 0 m
   = take (nat (if m < 0 then max (m + int (length xs)) 0 else min m (int (length xs)))) xs"
  by (simp add: py_slice_def Let_def)

lemma py_slice_length: "0 \<le> m \<Longrightarrow> int (length (py_slice xs 0 m)) \<le> m"
  by (simp add: py_slice_prefix)

lemma py_slice_all: "int (length xs) \<le> m \<Longrightarrow> py_slice xs 0 m = xs"
  by (simp add: py_slice_prefix)

lemma filter_take_prefix: "prefix (filter P (take n xs)) (filter P xs)"
proof -
  have "filter P xs = filter P (take n xs) @ filter P (drop n xs)"
    by (metis append_take_drop_id filter_append)
  then show ?thesis by (simp add: prefix_def)
qed

subsection \<open>Loading and the cache\<close>

lemma load_document_view:
  "snd (load_document (fst (load_document st d)) d') = snd (load_document st d')"
  by (cases "d' = d")
     (auto simp: load_document_def split: option.splits disk_file.splits)

lemma search_state: "fst (search fa st d q k) = fst (load_document st d)"
  by (cases "load_document st d")
     (auto simp: search_def Let_def split: sum.splits prod.splits)

lemma search_view:
  assumes "snd (load_document st' d) = snd (load_document st d)"
  shows "snd (search fa st' d q k) = snd (search fa st d q k)"
  using assms
  by (cases "load_document st d"; cases "load_document st' d")
     (auto simp: search_def Let_def split: sum.splits prod.splits)

lemma search_all_pool:
  assumes "\<forall>d. snd (load_document st' d) = snd (load_document st d)"
  shows "snd (search_all fa st' ds q k acc) = acc @ concat (map (doc_results fa st q k) ds)"
  using assms
proof (induction ds arbitrary: st' acc)
  case Nil
  then show ?case by simp
next
  case (Cons d ds)
  obtain st1 r0 where s: "search fa st' d q k = (st1, r0)" by (cases "search fa st' d q k")
  have st1: "st1 = fst (load_document st' d)"
    using s search_state [of fa st' d q k] by simp
  have "snd (search fa st' d q k) = snd (search fa st d q k)"
    using Cons.prems by (intro search_view) simp
  then have r: "snd (search fa st d q k) = r0" using s by simp
  have "\<forall>x. snd (load_document st1 x) = snd (load_document st x)"
    using Cons.prems by (simp add: st1 load_document_view)
  then have ih: "\<And>acc. snd (search_all fa st1 ds q k acc)
                   = acc @ concat (map (doc_results fa st q k) ds)"
    by (rule Cons.IH)
  show ?case
  proof (cases r0)
    case (Inl e)
    then have "doc_results fa st q k d = []" using r by (simp add: doc_results_def)
    then show ?thesis using s Inl ih by simp
  next
    case (Inr rs)
    then have "doc_results fa st q k d = rs" using r by (simp add: doc_results_def)
    then show ?thesis using s Inr ih by simp
  qed
qed

lemma search_multi_pool:
  "snd (search_multi_documents fa st doc_ids q k m)
   = py_slice (py_sort_desc score (concat (map (doc_results fa st q k) doc_ids))) 0 m"
proof -
  have "snd (search_all fa st doc_ids q k []) = [] @ concat (map (doc_results fa st q k) doc_ids)"
    by (rule search_all_pool) simp
  then show ?thesis
    by (cases "search_all fa st doc_ids q k []") (simp add: search_multi_documents_def)
qed

lemma doc_results_filter:
  "concat (map (doc_results fa st q k) (filter (search_ok fa st q k) ds))
   = concat (map (doc_results fa st q k) ds)"
  by (induction ds) (auto simp: doc_results_def search_ok_def split: sum.splits)

subsection \<open>Results of a single search\<close>

lemma build_results_length:
  "build_results fa d chunks ps acc = Inr rs \<Longrightarrow> length rs \<le> length acc + length ps"
proof (induction ps arbitrary: acc)
  case Nil
  then show ?case by simp
next
  case (Cons p ps)
  obtain dst idx where p: "p = (dst, idx)" by (cases p)
  show ?case
  proof (cases "idx < int (length chunks)")
    case True
    then obtain chunk where c: "py_index chunks idx = Inr chunk"
      using Cons.prems p by (cases "py_index chunks idx") auto
    let ?r = "\<lparr>doc_id_r = d, chunk_id_r = chunk_id chunk, text_r = text_field chunk,
                score = score_f32 fa dst, page_num_r = page_num chunk,
                metadata_r = \<lparr>chunk_index_m = chunk_index chunk,
                               char_count_m = char_count chunk, distance = dst\<rparr>\<rparr>"
    have "build_results fa d chunks ps (acc @ [?r]) = Inr rs"
      using Cons.prems p True c by simp
    from Cons.IH [OF this] show ?thesis by simp
  next
    case False
    then have "build_results fa d chunks ps acc = Inr rs" using Cons.prems p by simp
    from Cons.IH [OF this] show ?thesis by simp
  qed
qed

lemma search_length:
  assumes "snd (search fa st d q k) = Inr rs"
  shows "int (length rs) \<le> k"
proof -
  obtain st1 r where l: "load_document st d = (st1, r)" by (cases "load_document st d")
  show ?thesis
  proof (cases r)
    case (Inl e)
    then show ?thesis using assms l by (simp add: search_def)
  next
    case (Inr entry)
    obtain index chunks md where e: "entry = (index, chunks, md)" by (cases entry)
    let ?k = "min k (int (length chunks))"
    have ok: "\<not> (length q \<noteq> dim index \<or> ?k \<le> 0)"
      using assms l Inr e by (auto simp: search_def Let_def split: if_splits)
    then have "build_results fa d chunks (faiss_search fa index q (nat ?k)) [] = Inr rs"
      using assms l Inr e by (simp add: search_def Let_def)
    from build_results_length [OF this]
    have "length rs \<le> length (faiss_search fa index q (nat ?k))" by simp
    also have "\<dots> = nat ?k" by (simp add: faiss_search_def Let_def)
    finally show ?thesis using ok by linarith
  qed
qed

lemma doc_results_length: "0 \<le> k \<Longrightarrow> int (length (doc_results fa st q k d)) \<le> k"
  using search_length [of fa st d q k]
  by (cases "snd (search fa st d q k)") (simp_all add: doc_results_def)

subsection \<open>Searching several documents\<close>

text \<open>
  Claim C6. A document whose retrieval or query fails is skipped, and the search goes
  on: the result is the sorted and truncated pool of the results of the documents whose
  search succeeds, the same as if the failing documents had not been asked for; with
  \<open>max_total \<ge> 0\<close> it has at most \<open>max_total\<close> elements. In particular, when document
  \<open>b\<close> is in neither the cache nor durable storage, the search of \<open>a\<close> and \<open>b\<close> with
  three results per document and four in total returns the results of \<open>a\<close>, at most three.
\<close>

theorem search_multi_skips_failures:
  "snd (search_multi_documents fa st doc_ids q k m)
     = py_slice (py_sort_desc score (concat (map (doc_results fa st q k) doc_ids))) 0 m
   \<and> snd (search_multi_documents fa st doc_ids q k m)
       = snd (search_multi_documents fa st (filter (search_ok fa st q k) doc_ids) q k m)
   \<and> (0 \<le> m \<longrightarrow> int (length (snd (search_multi_documents fa st doc_ids q k m))) \<le> m)
   \<and> (snd (search fa st a q 3) = Inr rs \<and> cache st b = None \<and> disk st b = None \<longrightarrow>
        snd (search fa st b q 3) = Inl FileNotFoundError
        \<and> snd (search_multi_documents fa st [a, b] q 3 4) = py_sort_desc score rs
        \<and> set (snd (search_multi_documents fa st [a, b] q 3 4)) = set rs
        \<and> length (snd (search_multi_documents fa st [a, b] q 3 4)) \<le> 3)"
proof (intro conjI impI)
  show pool: "snd (search_multi_documents fa st doc_ids q k m)
     = py_slice (py_sort_desc score (concat (map (doc_results fa st q k) doc_ids))) 0 m"
    by (rule search_multi_pool)
  show "snd (search_multi_documents fa st doc_ids q k m)
       = snd (search_multi_documents fa st (filter (search_ok fa st q k) doc_ids) q k m)"
    by (simp only: search_multi_pool doc_results_filter)
  show "int (length (snd (search_multi_documents fa st doc_ids q k m))) \<le> m" if "0 \<le> m"
    using that by (simp only: search_multi_pool py_slice_length)
next
  assume a: "snd (search fa st a q 3) = Inr rs \<and> cache st b = None \<and> disk st b = None"
  then have b: "snd (search fa st b q 3) = Inl FileNotFoundError"
    by (simp add: search_def load_document_def)
  then show "snd (search fa st b q 3) = Inl FileNotFoundError" .
  have len: "int (length rs) \<le> 3" using a by (intro search_length [of fa st a q]) simp
  have "concat (map (doc_results fa st q 3) [a, b]) = rs"
    using a b by (simp add: doc_results_def)
  then have "snd (search_multi_documents fa st [a, b] q 3 4) = py_slice (py_sort_desc score rs) 0 4"
    by (simp only: search_multi_pool)
  also have "\<dots> = py_sort_desc score rs"
    using len by (intro py_slice_all) (simp add: py_sort_desc_length)
  finally show r: "snd (search_multi_documents fa st [a, b] q 3 4) = py_sort_desc score rs" .
  show "set (snd (search_multi_documents fa st [a, b] q 3 4)) = set rs"
    by (simp only: r py_sort_desc_set)
  show "length (snd (search_multi_documents fa st [a, b] q 3 4)) \<le> 3"
    using len by (simp add: r py_sort_desc_length)
qed

text \<open>
  Document \<open>A\<close> has three chunks and document \<open>B\<close> is missing: the search returns the
  three results of \<open>A\<close>, the nearest first.
\<close>

theorem search_multi_skips_failures_witness:
  "cache store_A3 ''B'' = None \<and> disk store_A3 ''B'' = None
   \<and> snd (search exact_arith store_A3 ''B'' [0, 0, 0] 3) = Inl FileNotFoundError
   \<and> map chunk_id_r (snd (search_multi_documents exact_arith store_A3 [''A'', ''B''] [0, 0, 0] 3 4))
       = [''A_chunk_1'', ''A_chunk_2'', ''A_chunk_0'']
   \<and> map score (snd (search_multi_documents exact_arith store_A3 [''A'', ''B''] [0, 0, 0] 3 4))
       = [1, 1 / 2, 1 / 4]
   \<and> snd (search_multi_documents exact_arith store_A3 [''A'', ''B''] [0, 0, 0] 3 4)
       = snd (search_multi_documents exact_arith store_A3 [''A''] [0, 0, 0] 3 4)
   \<and> filter (search_ok exact_arith store_A3 [0, 0, 0] 3) [''A'', ''B''] = [''A'']"
proof -
  have c: "cache store_A3 ''B'' = None" "disk store_A3 ''B'' = None"
    by (simp_all add: store_A3_def store_document_def save_to_disk_def empty_store_def
          homogeneous_def Let_def)
  have e1: "map chunk_id_r (snd (search_multi_documents exact_arith store_A3 [''A'', ''B''] [0, 0, 0] 3 4))
       = [''A_chunk_1'', ''A_chunk_2'', ''A_chunk_0'']"
    by code_simp
  have e2: "map score (snd (search_multi_documents exact_arith store_A3 [''A'', ''B''] [0, 0, 0] 3 4))
       = [1, 1 / 2, 1 / 4]"
    by code_simp
  have e3: "filter (search_ok exact_arith store_A3 [0, 0, 0] 3) [''A'', ''B''] = [''A'']"
    by code_simp
  have e4: "snd (search exact_arith store_A3 ''B'' [0, 0, 0] 3) = Inl FileNotFoundError"
    by code_simp
  from search_multi_skips_failures [of exact_arith store_A3 "[''A'', ''B'']" "[0, 0, 0]" 3 4 "''A''" _ "''B''"]
  have "snd (search_multi_documents exact_arith store_A3 [''A'', ''B''] [0, 0, 0] 3 4)
       = snd (search_multi_documents exact_arith store_A3 (filter (search_ok exact_arith store_A3 [0, 0, 0] 3) [''A'', ''B'']) [0, 0, 0] 3 4)"
    by blast
  then have e5: "snd (search_multi_documents exact_arith store_A3 [''A'', ''B''] [0, 0, 0] 3 4)
       = snd (search_multi_documents exact_arith store_A3 [''A''] [0, 0, 0] 3 4)"
    by (simp only: e3)
  from c e1 e2 e3 e4 e5 show ?thesis
    apply -
    apply (intro conjI)
          apply assumption+
    done
qed

subsection \<open>Order of the merged results\<close>

text \<open>
  Claim C3, as amended. The list that \<open>search_multi_documents\<close> returns is sorted by
  score descending, and results with equal score keep the order of the pool: first by
  the position of their document in \<open>doc_ids\<close>, then by their rank in the search of that
  document (the sort is stable and nothing else breaks ties).
\<close>

theorem search_multi_order:
  "sorted_wrt (\<lambda>x y. score y \<le> score x) (snd (search_multi_documents fa st doc_ids q k m))
   \<and> prefix (filter (\<lambda>x. score x = s) (snd (search_multi_documents fa st doc_ids q k m)))
        (filter (\<lambda>x. score x = s) (concat (map (doc_results fa st q k) doc_ids)))"
proof
  let ?pool = "concat (map (doc_results fa st q k) doc_ids)"
  let ?n = "nat (if m < 0 then max (m + int (length (py_sort_desc score ?pool))) 0
                 else min m (int (length (py_sort_desc score ?pool))))"
  have r: "snd (search_multi_documents fa st doc_ids q k m) = take ?n (py_sort_desc score ?pool)"
    by (simp only: search_multi_pool py_slice_prefix)
  have "sorted_wrt (\<lambda>x y. score y \<le> score x) (take ?n (py_sort_desc score ?pool))"
    by (intro sorted_wrt_take py_sort_desc_sorted)
  then show "sorted_wrt (\<lambda>x y. score y \<le> score x) (snd (search_multi_documents fa st doc_ids q k m))"
    by (simp only: r)
  have "prefix (filter (\<lambda>x. score x = s) (take ?n (py_sort_desc score ?pool)))
          (filter (\<lambda>x. score x = s) (py_sort_desc score ?pool))"
    by (rule filter_take_prefix)
  then show "prefix (filter (\<lambda>x. score x = s) (snd (search_multi_documents fa st doc_ids q k m)))
        (filter (\<lambda>x. score x = s) ?pool)"
    by (simp only: r py_sort_desc_stable)
qed

theorem search_multi_order_witness:
  "map chunk_id_r (snd (search_multi_documents exact_arith store_AB [''A'', ''B''] [0] 3 10))
     = [''A_chunk_0'', ''A_chunk_1'', ''B_chunk_0'']
   \<and> map score (snd (search_multi_documents exact_arith store_AB [''A'', ''B''] [0] 3 10)) = [1, 1, 1]
   \<and> map chunk_id_r (concat (map (doc_results exact_arith store_AB [0] 3) [''A'', ''B'']))
     = [''A_chunk_0'', ''A_chunk_1'', ''B_chunk_0'']"
proof -
  have e1: "map chunk_id_r (snd (search_multi_documents exact_arith store_AB [''A'', ''B''] [0] 3 10))
     = [''A_chunk_0'', ''A_chunk_1'', ''B_chunk_0'']"
    by code_simp
  have e2: "map score (snd (search_multi_documents exact_arith store_AB [''A'', ''B''] [0] 3 10)) = [1, 1, 1]"
    by code_simp
  have e3: "map chunk_id_r (concat (map (doc_results exact_arith store_AB [0] 3) [''A'', ''B'']))
     = [''A_chunk_0'', ''A_chunk_1'', ''B_chunk_0'']"
    by code_simp
  from search_multi_order [of exact_arith store_AB "[''A'', ''B'']" "[0]" 3 10 1] e1 e2 e3
  show ?thesis
    apply -
    apply (intro conjI)
      apply assumption+
    done
qed

text \<open>
  Claim C3 as it is written breaks ties by the rank within the document first and by
  \<open>doc_id\<close> second. All three results below have score 1; the second chunk of \<open>A\<close>
  (rank 1) comes before the first chunk of \<open>B\<close> (rank 0).
\<close>

theorem search_multi_tie_counterexample:
  "map chunk_id_r (snd (search_multi_documents exact_arith store_AB [''A'', ''B''] [0] 3 10))
     = [''A_chunk_0'', ''A_chunk_1'', ''B_chunk_0'']
   \<and> map score (snd (search_multi_documents exact_arith store_AB [''A'', ''B''] [0] 3 10)) = [1, 1, 1]
   \<and> map (rank_in exact_arith store_AB [0] 3) (snd (search_multi_documents exact_arith store_AB [''A'', ''B''] [0] 3 10))
     = [0, 1, 0]
   \<and> \<not> spec_tie_order exact_arith store_AB [0] 3
         (snd (search_multi_documents exact_arith store_AB [''A'', ''B''] [0] 3 10))"
  by code_simp

subsection \<open>A failing \<open>store_document\<close>\<close>

text \<open>
  Claim C4, as amended. When \<open>store_document\<close> fails while the index is built (the
  numbers of chunks and embeddings differ, the embeddings are empty or of different
  lengths), the cache and durable storage are unchanged. The cache entry is written
  before the file: when the write to durable storage fails, the cache holds the complete
  new index of \<open>doc_id\<close>, and the entries of every other document are unchanged in the
  cache and in durable storage. A failure is always one of these two kinds.
\<close>

theorem store_document_failure:
  "(length chunks \<noteq> length embeddings \<or> embeddings = [] \<or> \<not> homogeneous embeddings \<longrightarrow>
      fst (store_document st d chunks embeddings md io) = st
      \<and> isl (snd (store_document st d chunks embeddings md io)))
   \<and> (length chunks = length embeddings \<and> embeddings \<noteq> [] \<and> homogeneous embeddings
        \<and> io \<noteq> WriteOk \<longrightarrow>
      snd (store_document st d chunks embeddings md io) = Inl OSError
      \<and> cache (fst (store_document st d chunks embeddings md io)) d
          = Some (\<lparr>dim = length (hd embeddings), xb = embeddings\<rparr>, chunks,
                  Some (case md of None \<Rightarrow> [] | Some m \<Rightarrow> m))
      \<and> (\<forall>d'. d' \<noteq> d \<longrightarrow>
            cache (fst (store_document st d chunks embeddings md io)) d' = cache st d'
            \<and> disk (fst (store_document st d chunks embeddings md io)) d' = disk st d'))
   \<and> (isl (snd (store_document st d chunks embeddings md io)) \<longrightarrow>
        length chunks \<noteq> length embeddings \<or> embeddings = [] \<or> \<not> homogeneous embeddings
        \<or> io \<noteq> WriteOk)"
proof (intro conjI impI)
  assume "length chunks \<noteq> length embeddings \<or> embeddings = [] \<or> \<not> homogeneous embeddings"
  then show "fst (store_document st d chunks embeddings md io) = st"
    and "isl (snd (store_document st d chunks embeddings md io))"
    by (auto simp: store_document_def)
next
  assume a: "length chunks = length embeddings \<and> embeddings \<noteq> [] \<and> homogeneous embeddings
        \<and> io \<noteq> WriteOk"
  then show "snd (store_document st d chunks embeddings md io) = Inl OSError"
    by (cases io) (simp_all add: store_document_def save_to_disk_def Let_def)
  from a show "cache (fst (store_document st d chunks embeddings md io)) d
          = Some (\<lparr>dim = length (hd embeddings), xb = embeddings\<rparr>, chunks,
                  Some (case md of None \<Rightarrow> [] | Some m \<Rightarrow> m))"
    by (cases io) (simp_all add: store_document_def save_to_disk_def Let_def)
  from a show "\<forall>d'. d' \<noteq> d \<longrightarrow>
            cache (fst (store_document st d chunks embeddings md io)) d' = cache st d'
            \<and> disk (fst (store_document st d chunks embeddings md io)) d' = disk st d'"
    by (cases io) (simp_all add: store_document_def save_to_disk_def Let_def)
next
  assume "isl (snd (store_document st d chunks embeddings md io))"
  then show "length chunks \<noteq> length embeddings \<or> embeddings = [] \<or> \<not> homogeneous embeddings
        \<or> io \<noteq> WriteOk"
    by (cases io) (auto simp: store_document_def save_to_disk_def Let_def split: if_splits)
qed

text \<open>
  A count mismatch leaves the empty store empty; a failing \<open>open\<close> leaves the new entry
  of \<open>A\<close> in the cache and nothing on disk.
\<close>

theorem store_document_failure_witness:
  "store_document empty_store ''A'' (to_metadata ''A'' None 0 [''a0'', ''a1'']) [[0]] None WriteOk
     = (empty_store, Inl ValueError)
   \<and> snd (store_document empty_store ''A'' (to_metadata ''A'' None 0 [''a0'']) [[0]] None
            OpenFails) = Inl OSError
   \<and> cache (fst (store_document empty_store ''A'' (to_metadata ''A'' None 0 [''a0'']) [[0]] None
            OpenFails)) ''A''
       = Some (\<lparr>dim = 1, xb = [[0]]\<rparr>, to_metadata ''A'' None 0 [''a0''], Some [])
   \<and> disk (fst (store_document empty_store ''A'' (to_metadata ''A'' None 0 [''a0'']) [[0]] None
            OpenFails)) ''A'' = None"
proof -
  have e1: "store_document empty_store ''A'' (to_metadata ''A'' None 0 [''a0'', ''a1'']) [[0]]
              None WriteOk = (empty_store, Inl ValueError)"
    by (simp add: store_document_def)
  have h: "length (to_metadata ''A'' None 0 [''a0'']) = length [[0::real]]
           \<and> [[0::real]] \<noteq> [] \<and> homogeneous [[0]] \<and> OpenFails \<noteq> WriteOk"
    by (simp add: homogeneous_def)
  from store_document_failure
         [of "to_metadata ''A'' None 0 [''a0'']" "[[0]]" empty_store "''A''" None OpenFails] h
  have e2: "snd (store_document empty_store ''A'' (to_metadata ''A'' None 0 [''a0'']) [[0]] None
            OpenFails) = Inl OSError"
    and e3: "cache (fst (store_document empty_store ''A'' (to_metadata ''A'' None 0 [''a0''])
            [[0]] None OpenFails)) ''A''
       = Some (\<lparr>dim = 1, xb = [[0]]\<rparr>, to_metadata ''A'' None 0 [''a0''], Some [])"
    by simp_all
  have e4: "disk (fst (store_document empty_store ''A'' (to_metadata ''A'' None 0 [''a0''])
            [[0]] None OpenFails)) ''A'' = None"
    by (simp add: store_document_def save_to_disk_def empty_store_def homogeneous_def Let_def)
  from e1 e2 e3 e4 show ?thesis
    apply -
    apply (intro conjI)
       apply assumption+
    done
qed

text \<open>
  Claim C4 as it is written says that a failing \<open>store_document\<close> leaves the store as it
  was. When the file cannot be opened for writing, the call fails and the cache, empty
  before, holds the entry of \<open>A\<close>; when \<open>pickle.dump\<close> fails, the truncated file is
  left in durable storage as well.
\<close>

theorem store_document_not_atomic_counterexample:
  "snd (store_document empty_store ''A'' (to_metadata ''A'' None 0 [''a0'']) [[0]] None
          OpenFails) = Inl OSError
   \<and> cache empty_store ''A'' = None
   \<and> cache (fst (store_document empty_store ''A'' (to_metadata ''A'' None 0 [''a0'']) [[0]]
          None OpenFails)) ''A''
       = Some (\<lparr>dim = 1, xb = [[0]]\<rparr>, to_metadata ''A'' None 0 [''a0''], Some [])
   \<and> snd (store_document empty_store ''A'' (to_metadata ''A'' None 0 [''a0'']) [[0]] None
          DumpFails) = Inl OSError
   \<and> disk empty_store ''A'' = None
   \<and> disk (fst (store_document empty_store ''A'' (to_metadata ''A'' None 0 [''a0'']) [[0]]
          None DumpFails)) ''A'' = Some Corrupt"
  by (simp add: store_document_def save_to_disk_def empty_store_def homogeneous_def Let_def)

end
